theory Spec2Isabelle
  imports Main "HOL-Library.Word"
begin

section \<open>The Orderbook settlement contract\<close>

text \<open>
  A shallow embedding of the Solidity contract \<open>Orderbook\<close> (source file
  \<open>src/unnamed/part_007\<close>): internal token balances, signed orders that are filled
  partially or fully, batch fills and cancellation.

  Solidity values are modelled at their machine width: \<open>uint256\<close> and \<open>bytes32\<close> are
  256-bit words, an \<open>address\<close> is a 160-bit word. The contract is compiled with Solidity
  0.8, whose \<open>+\<close>, \<open>-\<close>, \<open>*\<close> and \<open>/\<close> are checked: overflow, underflow and division by
  zero abort the call with a \<open>Panic\<close>. A call that reverts leaves the storage as it was
  before the call; a function of the model therefore returns either an error (and no
  state) or the new state.
\<close>

subsection \<open>Values, errors and events\<close>

type_synonym address = "160 word"
type_synonym uint256 = "256 word"
type_synonym bytes32 = "256 word"
type_synonym bytes = "8 word list"

record Order =
  maker :: address
  taker :: address
  tokenSell :: address
  tokenBuy :: address
  amountSell :: uint256
  amountBuy :: uint256
  expiration :: uint256
  salt :: uint256

text \<open>The two arithmetic panics of checked Solidity arithmetic: \<open>Panic(0x11)\<close> for
  overflow and underflow, \<open>Panic(0x12)\<close> for division by zero.\<close>

datatype panic = ArithmeticOverflow | DivisionByZero

text \<open>The errors with which \<open>ECDSA.recover\<close> of the imported library can revert.\<close>

datatype ecdsa_error =
    ECDSAInvalidSignature
  | ECDSAInvalidSignatureLength nat
  | ECDSAInvalidSignatureS bytes32

text \<open>The custom errors the contract declares, followed by the ways a call can abort
  without one of them: an arithmetic panic, a revert inside \<open>ECDSA.recover\<close>, and a
  failed external token transfer (\<open>SafeERC20\<close>).\<close>

datatype error =
    InvalidTokenAddress
  | InsufficientBalance
  | OrderExpired
  | NotAuthorizedTaker
  | OrderAlreadyCancelled
  | InvalidSignature
  | InsufficientOrderRemaining
  | MakerInsufficientBalance
  | TakerInsufficientBalance
  | ArrayLengthMismatch
  | OnlyMakerCanCancel
  | TooManyOrders
  | Panic panic
  | ECDSA ecdsa_error
  | TransferFailed

datatype event =
    Deposit address address uint256
  | Withdrawal address address uint256
  | OrderFilled bytes32 address uint256
  | OrderCancelled bytes32 address

subsection \<open>Storage and environment\<close>

text \<open>The three storage mappings of the contract (a Solidity mapping is total and
  reads zero, or false, at a key never written), and the log of emitted events.\<close>

record state =
  filledAmountSell :: "bytes32 \<Rightarrow> uint256"
  balances :: "address \<Rightarrow> address \<Rightarrow> uint256"
  cancelledOrders :: "bytes32 \<Rightarrow> bool"
  events :: "event list"

text \<open>The state of a freshly deployed contract.\<close>

definition initial_state :: state where
  "initial_state =
     \<lparr> filledAmountSell = (\<lambda>_. 0), balances = (\<lambda>_ _. 0),
       cancelledOrders = (\<lambda>_. False), events = [] \<rparr>"

text \<open>What a call sees of the transaction: \<open>msg.sender\<close>, \<open>block.timestamp\<close>, and
  whether the external ERC-20 transfer that \<open>deposit\<close> or \<open>withdraw\<close> makes goes
  through. The token contract is outside this contract; \<open>nonReentrant\<close> keeps a token
  from re-entering \<open>deposit\<close>, \<open>withdraw\<close>, \<open>fillOrder\<close> and \<open>fillOrdersBatch\<close> during
  that transfer, which is why the transfer is modelled by its outcome alone.\<close>

record env =
  sender :: address
  timestamp :: uint256
  transfer_ok :: bool

text \<open>The primitives the contract takes from the EVM and from the imported libraries:
  \<open>keccak256\<close> applied to an \<open>abi.encode\<close>d tuple of static values (given as the list
  of its 32-byte words), the constant \<open>ORDER_TYPEHASH\<close> (the \<open>keccak256\<close> of the order
  type string), \<open>EIP712._hashTypedDataV4\<close>, and \<open>ECDSA.recover\<close>, which either reverts
  or returns the recovered signer.\<close>

record deps =
  keccak256 :: "uint256 list \<Rightarrow> bytes32"
  ORDER_TYPEHASH :: bytes32
  hashTypedDataV4 :: "bytes32 \<Rightarrow> bytes32"
  recover :: "bytes32 \<Rightarrow> bytes \<Rightarrow> ecdsa_error + address"

definition MAX_BATCH_SIZE :: nat where
  "MAX_BATCH_SIZE = 5"

subsection \<open>Checked arithmetic and sequencing\<close>

definition checked_add :: "uint256 \<Rightarrow> uint256 \<Rightarrow> error + uint256" where
  "checked_add a b =
     (if unat a + unat b < 2 ^ 256 then Inr (a + b) else Inl (Panic ArithmeticOverflow))"

definition checked_sub :: "uint256 \<Rightarrow> uint256 \<Rightarrow> error + uint256" where
  "checked_sub a b = (if b \<le> a then Inr (a - b) else Inl (Panic ArithmeticOverflow))"

definition checked_mul :: "uint256 \<Rightarrow> uint256 \<Rightarrow> error + uint256" where
  "checked_mul a b =
     (if unat a * unat b < 2 ^ 256 then Inr (a * b) else Inl (Panic ArithmeticOverflow))"

definition checked_div :: "uint256 \<Rightarrow> uint256 \<Rightarrow> error + uint256" where
  "checked_div a b = (if b = 0 then Inl (Panic DivisionByZero) else Inr (a div b))"

text \<open>Sequencing of statements that may revert.\<close>

definition and_then :: "error + 'a \<Rightarrow> ('a \<Rightarrow> error + 'b) \<Rightarrow> error + 'b" where
  "and_then m f = (case m of Inl e \<Rightarrow> Inl e | Inr x \<Rightarrow> f x)"

subsection \<open>Storage updates\<close>

definition set_balance :: "address \<Rightarrow> address \<Rightarrow> uint256 \<Rightarrow> state \<Rightarrow> state" where
  "set_balance user token v s =
     s\<lparr>balances := (balances s)(user := (balances s user)(token := v))\<rparr>"

text \<open>\<open>balances[user][token] += amount\<close> and \<open>balances[user][token] -= amount\<close>.\<close>

definition add_balance :: "address \<Rightarrow> address \<Rightarrow> uint256 \<Rightarrow> state \<Rightarrow> error + state" where
  "add_balance user token amount s =
     and_then (checked_add (balances s user token) amount)
       (\<lambda>v. Inr (set_balance user token v s))"

definition sub_balance :: "address \<Rightarrow> address \<Rightarrow> uint256 \<Rightarrow> state \<Rightarrow> error + state" where
  "sub_balance user token amount s =
     and_then (checked_sub (balances s user token) amount)
       (\<lambda>v. Inr (set_balance user token v s))"

text \<open>\<open>filledAmountSell[digest] += amount\<close>.\<close>

definition add_filled :: "bytes32 \<Rightarrow> uint256 \<Rightarrow> state \<Rightarrow> error + state" where
  "add_filled digest amount s =
     and_then (checked_add (filledAmountSell s digest) amount)
       (\<lambda>v. Inr (s\<lparr>filledAmountSell := (filledAmountSell s)(digest := v)\<rparr>))"

definition emit :: "event \<Rightarrow> state \<Rightarrow> state" where
  "emit ev s = s\<lparr>events := events s @ [ev]\<rparr>"

subsection \<open>Deposits and withdrawals\<close>

definition deposit :: "env \<Rightarrow> address \<Rightarrow> uint256 \<Rightarrow> state \<Rightarrow> error + state" where
  "deposit E token amount s =
     (if token = 0 then Inl InvalidTokenAddress
      else if \<not> transfer_ok E then Inl TransferFailed
      else and_then (add_balance (sender E) token amount s)
             (\<lambda>s1. Inr (emit (Deposit (sender E) token amount) s1)))"

definition withdraw :: "env \<Rightarrow> address \<Rightarrow> uint256 \<Rightarrow> state \<Rightarrow> error + state" where
  "withdraw E token amount s =
     (if token = 0 then Inl InvalidTokenAddress
      else if balances s (sender E) token < amount then Inl InsufficientBalance
      else and_then (sub_balance (sender E) token amount s)
             (\<lambda>s1. if \<not> transfer_ok E then Inl TransferFailed
                    else Inr (emit (Withdrawal (sender E) token amount) s1)))"

subsection \<open>Order digest and signature check\<close>

text \<open>\<open>abi.encode(ORDER_TYPEHASH, order.maker, ..., order.salt)\<close>: nine 32-byte words,
  an address widened to 256 bits.\<close>

definition abi_encode_order :: "deps \<Rightarrow> Order \<Rightarrow> uint256 list" where
  "abi_encode_order D order =
     [ORDER_TYPEHASH D, ucast (maker order), ucast (taker order),
      ucast (tokenSell order), ucast (tokenBuy order),
      amountSell order, amountBuy order, expiration order, salt order]"

definition internal_orderHash :: "deps \<Rightarrow> Order \<Rightarrow> bytes32" where
  "internal_orderHash D order =
     (let structHash = keccak256 D (abi_encode_order D order)
      in hashTypedDataV4 D structHash)"

definition getOrderHash :: "deps \<Rightarrow> Order \<Rightarrow> bytes32" where
  "getOrderHash D order = internal_orderHash D order"

text \<open>\<open>verifyOrder\<close> is a \<open>view\<close> function: it reads no storage, writes none, and either
  reverts (when \<open>recover\<close> does) or returns a boolean.\<close>

definition verifyOrder :: "deps \<Rightarrow> Order \<Rightarrow> bytes \<Rightarrow> error + bool" where
  "verifyOrder D order signature =
     (let structHash = keccak256 D (abi_encode_order D order);
          digest = hashTypedDataV4 D structHash
      in case recover D digest signature of
           Inl e \<Rightarrow> Inl (ECDSA e)
         | Inr recovered \<Rightarrow> Inr (recovered = maker order))"

subsection \<open>Filling orders\<close>

text \<open>The line
  \<open>uint256 proportionalBuyAmount = (order.amountBuy * amountToFill) / order.amountSell\<close>:
  a checked multiplication followed by a checked division.\<close>

definition proportionalBuyAmount :: "Order \<Rightarrow> uint256 \<Rightarrow> error + uint256" where
  "proportionalBuyAmount order amountToFill =
     and_then (checked_mul (amountBuy order) amountToFill)
       (\<lambda>product. checked_div product (amountSell order))"

text \<open>The end of \<open>_fillOrder\<close>, once every check has passed: the four updates of
  \<open>balances\<close> in the order of the source, the update of \<open>filledAmountSell\<close>, and the
  event. Each \<open>+=\<close> and \<open>-=\<close> is checked.\<close>

definition settle ::
  "env \<Rightarrow> Order \<Rightarrow> uint256 \<Rightarrow> uint256 \<Rightarrow> bytes32 \<Rightarrow> state \<Rightarrow> error + state" where
  "settle E order amountToFill buyAmount digest s =
     and_then (sub_balance (maker order) (tokenSell order) amountToFill s) (\<lambda>s1.
     and_then (add_balance (maker order) (tokenBuy order) buyAmount s1) (\<lambda>s2.
     and_then (sub_balance (sender E) (tokenBuy order) buyAmount s2) (\<lambda>s3.
     and_then (add_balance (sender E) (tokenSell order) amountToFill s3) (\<lambda>s4.
     and_then (add_filled digest amountToFill s4) (\<lambda>s5.
     Inr (emit (OrderFilled digest (sender E) amountToFill) s5))))))"

text \<open>The body of \<open>_fillOrder\<close>, statement by statement.\<close>

definition internal_fillOrder ::
  "deps \<Rightarrow> env \<Rightarrow> Order \<Rightarrow> uint256 \<Rightarrow> bytes \<Rightarrow> state \<Rightarrow> error + state" where
  "internal_fillOrder D E order amountToFill signature s =
     (if expiration order < timestamp E then Inl OrderExpired
      else if taker order \<noteq> 0 \<and> taker order \<noteq> sender E then Inl NotAuthorizedTaker
      else
        let digest = internal_orderHash D order in
        if cancelledOrders s digest then Inl OrderAlreadyCancelled
        else
          case recover D digest signature of
            Inl e \<Rightarrow> Inl (ECDSA e)
          | Inr recoveredSigner \<Rightarrow>
              if recoveredSigner \<noteq> maker order then Inl InvalidSignature
              else
                and_then (checked_sub (amountSell order) (filledAmountSell s digest))
                  (\<lambda>remainingSell.
                if remainingSell < amountToFill then Inl InsufficientOrderRemaining
                else
                and_then (proportionalBuyAmount order amountToFill) (\<lambda>buyAmount.
                if balances s (maker order) (tokenSell order) < amountToFill
                then Inl MakerInsufficientBalance
                else if balances s (sender E) (tokenBuy order) < buyAmount
                then Inl TakerInsufficientBalance
                else settle E order amountToFill buyAmount digest s)))"

text \<open>The public \<open>fillOrder\<close> is \<open>_fillOrder\<close> behind the \<open>nonReentrant\<close> modifier; a
  transaction enters the contract with the guard open, and \<open>_fillOrder\<close> makes no
  external call.\<close>

definition fillOrder ::
  "deps \<Rightarrow> env \<Rightarrow> Order \<Rightarrow> uint256 \<Rightarrow> bytes \<Rightarrow> state \<Rightarrow> error + state" where
  "fillOrder D E order amountToFill signature s =
     internal_fillOrder D E order amountToFill signature s"

text \<open>The loop \<open>for (i = 0; i < orders.length; i++)\<close> of \<open>fillOrdersBatch\<close>, from
  index \<open>i\<close> on.\<close>

function fillOrders_loop ::
  "deps \<Rightarrow> env \<Rightarrow> Order list \<Rightarrow> uint256 list \<Rightarrow> bytes list \<Rightarrow> nat \<Rightarrow> state
     \<Rightarrow> error + state" where
  "fillOrders_loop D E orders amountsToFill signatures i s =
     (if i < length orders
      then and_then
             (internal_fillOrder D E (orders ! i) (amountsToFill ! i) (signatures ! i) s)
             (\<lambda>s1. fillOrders_loop D E orders amountsToFill signatures (i + 1) s1)
      else Inr s)"
  by pat_completeness auto
termination
  by (relation "measure (\<lambda>(D, E, orders, amountsToFill, signatures, i, s). length orders - i)")
     auto

declare fillOrders_loop.simps [simp del]

definition fillOrdersBatch ::
  "deps \<Rightarrow> env \<Rightarrow> Order list \<Rightarrow> uint256 list \<Rightarrow> bytes list \<Rightarrow> state
     \<Rightarrow> error + state" where
  "fillOrdersBatch D E orders amountsToFill signatures s =
     (if length orders \<noteq> length amountsToFill \<or> length orders \<noteq> length signatures
      then Inl ArrayLengthMismatch
      else if MAX_BATCH_SIZE < length orders then Inl TooManyOrders
      else fillOrders_loop D E orders amountsToFill signatures 0 s)"

subsection \<open>Cancellation\<close>

definition cancelOrder :: "deps \<Rightarrow> env \<Rightarrow> Order \<Rightarrow> state \<Rightarrow> error + state" where
  "cancelOrder D E order s =
     (if sender E \<noteq> maker order then Inl OnlyMakerCanCancel
      else
        let orderHash = internal_orderHash D order in
        Inr (emit (OrderCancelled orderHash (sender E))
               (s\<lparr>cancelledOrders := (cancelledOrders s)(orderHash := True)\<rparr>)))"

function cancelOrders_loop ::
  "deps \<Rightarrow> env \<Rightarrow> Order list \<Rightarrow> nat \<Rightarrow> state \<Rightarrow> error + state" where
  "cancelOrders_loop D E orders i s =
     (if i < length orders
      then if sender E \<noteq> maker (orders ! i) then Inl OnlyMakerCanCancel
           else
             let orderHash = internal_orderHash D (orders ! i) in
             cancelOrders_loop D E orders (i + 1)
               (emit (OrderCancelled orderHash (sender E))
                  (s\<lparr>cancelledOrders := (cancelledOrders s)(orderHash := True)\<rparr>))
      else Inr s)"
  by pat_completeness auto
termination
  by (relation "measure (\<lambda>(D, E, orders, i, s). length orders - i)") auto

declare cancelOrders_loop.simps [simp del]

definition cancelOrdersBatch :: "deps \<Rightarrow> env \<Rightarrow> Order list \<Rightarrow> state \<Rightarrow> error + state" where
  "cancelOrdersBatch D E orders s =
     (if MAX_BATCH_SIZE < length orders then Inl TooManyOrders
      else cancelOrders_loop D E orders 0 s)"

subsection \<open>Transactions\<close>

text \<open>The state-changing entry points of the contract, and the effect of one
  transaction on the storage: the new state when the call returns, the old state when
  it reverts.\<close>

datatype call =
    CallDeposit address uint256
  | CallWithdraw address uint256
  | CallFillOrder Order uint256 bytes
  | CallFillOrdersBatch "Order list" "uint256 list" "bytes list"
  | CallCancelOrder Order
  | CallCancelOrdersBatch "Order list"

fun dispatch :: "deps \<Rightarrow> env \<Rightarrow> call \<Rightarrow> state \<Rightarrow> error + state" where
  "dispatch D E (CallDeposit token amount) s = deposit E token amount s"
| "dispatch D E (CallWithdraw token amount) s = withdraw E token amount s"
| "dispatch D E (CallFillOrder order amountToFill signature) s =
     fillOrder D E order amountToFill signature s"
| "dispatch D E (CallFillOrdersBatch orders amountsToFill signatures) s =
     fillOrdersBatch D E orders amountsToFill signatures s"
| "dispatch D E (CallCancelOrder order) s = cancelOrder D E order s"
| "dispatch D E (CallCancelOrdersBatch orders) s = cancelOrdersBatch D E orders s"

definition transact :: "deps \<Rightarrow> env \<Rightarrow> call \<Rightarrow> state \<Rightarrow> state" where
  "transact D E c s = (case dispatch D E c s of Inl e \<Rightarrow> s | Inr s1 \<Rightarrow> s1)"

text \<open>A sequence of transactions, each with its own sender and timestamp.\<close>

fun run :: "deps \<Rightarrow> (env \<times> call) list \<Rightarrow> state \<Rightarrow> state" where
  "run D [] s = s"
| "run D ((E, c) # txs) s = run D txs (transact D E c s)"

text \<open>The quantity of a token that the ledger holds: the sum of the entries of all
  users for that token.\<close>

definition total_balance :: "state \<Rightarrow> address \<Rightarrow> nat" where
  "total_balance s token = (\<Sum>user\<in>UNIV. unat (balances s user token))"

subsection \<open>Notions used to state the properties\<close>

text \<open>A call returned (did not revert).\<close>

definition succeeded :: "error + 'a \<Rightarrow> bool" where
  "succeeded r = (case r of Inl e \<Rightarrow> False | Inr x \<Rightarrow> True)"

text \<open>The calls that move value across the custody boundary.\<close>

fun is_custody_call :: "call \<Rightarrow> bool" where
  "is_custody_call (CallDeposit token amount) = True"
| "is_custody_call (CallWithdraw token amount) = True"
| "is_custody_call c = False"

text \<open>What one transaction adds to the ledger's holding of \<open>token\<close> from outside: the
  amount of a deposit that returned, minus the amount of a withdrawal that returned,
  and nothing for any other call.\<close>

fun custody_delta :: "env \<Rightarrow> call \<Rightarrow> state \<Rightarrow> address \<Rightarrow> int" where
  "custody_delta E (CallDeposit tok amount) s token =
     (if succeeded (deposit E tok amount s) \<and> tok = token then uint amount else 0)"
| "custody_delta E (CallWithdraw tok amount) s token =
     (if succeeded (withdraw E tok amount s) \<and> tok = token then - uint amount else 0)"
| "custody_delta E c s token = 0"

fun net_custody :: "deps \<Rightarrow> (env \<times> call) list \<Rightarrow> state \<Rightarrow> address \<Rightarrow> int" where
  "net_custody D [] s token = 0"
| "net_custody D ((E, c) # txs) s token =
     custody_delta E c s token + net_custody D txs (transact D E c s) token"

text \<open>The first four checks of \<open>_fillOrder\<close> pass: the order has not expired, the
  caller is an admitted taker, the order is not cancelled, and the signature recovers
  to the maker.\<close>

definition passes_checks :: "deps \<Rightarrow> env \<Rightarrow> Order \<Rightarrow> bytes \<Rightarrow> state \<Rightarrow> bool" where
  "passes_checks D E order signature s \<longleftrightarrow>
     \<not> expiration order < timestamp E \<and>
     (taker order = 0 \<or> taker order = sender E) \<and>
     \<not> cancelledOrders s (internal_orderHash D order) \<and>
     recover D (internal_orderHash D order) signature = Inr (maker order)"

text \<open>The specification's batch: \<open>fillOrder\<close> applied to the elements one after the
  other, stopping at the first that fails.\<close>

fun fill_each :: "deps \<Rightarrow> env \<Rightarrow> (Order \<times> uint256 \<times> bytes) list \<Rightarrow> state \<Rightarrow> error + state" where
  "fill_each D E [] s = Inr s"
| "fill_each D E ((order, amountToFill, signature) # rest) s =
     and_then (fillOrder D E order amountToFill signature s) (fill_each D E rest)"

subsection \<open>Concrete inputs\<close>

text \<open>Stand-ins for the primitives, to run the model on concrete inputs: the digest of
  an order is its \<open>amountSell\<close> field, and a signature is 65 bytes of which the first
  names the signer. As \<open>ECDSA.recover\<close> of the imported library does, the stand-in
  reverts with \<open>ECDSAInvalidSignatureLength\<close> on a signature that is not 65 bytes
  long.\<close>

definition example_deps :: deps where
  "example_deps =
     \<lparr> keccak256 = (\<lambda>ws. case drop 5 ws of [] \<Rightarrow> 0 | w # rest \<Rightarrow> w),
       ORDER_TYPEHASH = 0,
       hashTypedDataV4 = (\<lambda>h. h),
       recover = (\<lambda>h sig. if length sig = 65 then Inr (ucast (hd sig))
                           else Inl (ECDSAInvalidSignatureLength (length sig))) \<rparr>"

definition signature_of :: "8 word \<Rightarrow> bytes" where
  "signature_of signer = signer # replicate 64 0"

definition env_of :: "address \<Rightarrow> env" where
  "env_of a = \<lparr> sender = a, timestamp = 500, transfer_ok = True \<rparr>"

text \<open>The maker is account 1, the taker account 2; token A is 10, token B is 20. The
  first order sells 100 A for 200 B, as in the repository's tests.\<close>

definition order_100_200 :: Order where
  "order_100_200 =
     \<lparr> maker = 1, taker = 0, tokenSell = 10, tokenBuy = 20,
       amountSell = 100, amountBuy = 200, expiration = 1000, salt = 1 \<rparr>"

definition order_3_10 :: Order where
  "order_3_10 =
     \<lparr> maker = 1, taker = 0, tokenSell = 10, tokenBuy = 20,
       amountSell = 3, amountBuy = 10, expiration = 1000, salt = 2 \<rparr>"

definition order_zero_sell :: Order where
  "order_zero_sell =
     \<lparr> maker = 1, taker = 0, tokenSell = 10, tokenBuy = 20,
       amountSell = 0, amountBuy = 10, expiration = 1000, salt = 3 \<rparr>"

definition order_huge_buy :: Order where
  "order_huge_buy =
     \<lparr> maker = 1, taker = 0, tokenSell = 10, tokenBuy = 20,
       amountSell = 2, amountBuy = 2 ^ 255, expiration = 1000, salt = 4 \<rparr>"

text \<open>The maker has deposited 100 A and the taker 500 B.\<close>

definition funded_state :: state where
  "funded_state =
     \<lparr> filledAmountSell = (\<lambda>h. 0),
       balances = (\<lambda>user token. if user = 1 \<and> token = 10 then 100
                                else if user = 2 \<and> token = 20 then 500 else 0),
       cancelledOrders = (\<lambda>h. False), events = [] \<rparr>"

text \<open>The ledger after the taker has filled 40 of the first order: 40 A against 80 B.\<close>

definition state_after_fill_40 :: state where
  "state_after_fill_40 =
     \<lparr> filledAmountSell = (\<lambda>h. if h = 100 then 40 else 0),
       balances = (\<lambda>user token. if user = 1 \<and> token = 10 then 60
                                else if user = 1 \<and> token = 20 then 80
                                else if user = 2 \<and> token = 10 then 40
                                else if user = 2 \<and> token = 20 then 420 else 0),
       cancelledOrders = (\<lambda>h. False),
       events = [OrderFilled 100 2 40] \<rparr>"

section \<open>Basic facts\<close>

subsection \<open>Sequencing, checked arithmetic and single updates\<close>

lemma and_then_Inl [simp]: "and_then (Inl e) f = Inl e"
  by (simp add: and_then_def)

lemma and_then_Inr [simp]: "and_then (Inr x) f = f x"
  by (simp add: and_then_def)

lemma and_then_eq_Inr: "and_then m f = Inr y \<longleftrightarrow> (\<exists>x. m = Inr x \<and> f x = Inr y)"
  by (cases m) simp_all

lemma and_then_eq_Inl:
  "and_then m f = Inl e \<longleftrightarrow> m = Inl e \<or> (\<exists>x. m = Inr x \<and> f x = Inl e)"
  by (cases m) simp_all

lemma and_then_assoc:
  "and_then (and_then m f) g = and_then m (\<lambda>x. and_then (f x) g)"
  by (cases m) simp_all

lemma succeeded_simps [simp]: "succeeded (Inr x)" "\<not> succeeded (Inl e)"
  by (simp_all add: succeeded_def)

lemma succeeded_iff: "succeeded r \<longleftrightarrow> (\<exists>x. r = Inr x)"
  by (cases r) simp_all

lemma checked_add_Inr: "checked_add a b = Inr c \<longleftrightarrow> unat a + unat b < 2 ^ 256 \<and> c = a + b"
  by (auto simp: checked_add_def)

lemma checked_sub_Inr: "checked_sub a b = Inr c \<longleftrightarrow> b \<le> a \<and> c = a - b"
  by (auto simp: checked_sub_def)

lemma checked_mul_Inr: "checked_mul a b = Inr c \<longleftrightarrow> unat a * unat b < 2 ^ 256 \<and> c = a * b"
  by (auto simp: checked_mul_def)

lemma checked_div_Inr: "checked_div a b = Inr c \<longleftrightarrow> b \<noteq> 0 \<and> c = a div b"
  by (auto simp: checked_div_def)

lemma unat_add_256: "unat a + unat b < 2 ^ 256 \<Longrightarrow> unat (a + b :: uint256) = unat a + unat b"
  using unat_add_lem [of a b] by simp

lemma unat_mul_256: "unat a * unat b < 2 ^ 256 \<Longrightarrow> unat (a * b :: uint256) = unat a * unat b"
  using unat_mult_lem [of a b] by simp

lemma word_le_unat: "(x::uint256) \<le> y \<longleftrightarrow> unat x \<le> unat y"
  by (simp add: word_le_nat_alt)

lemma word_less_unat: "(x::uint256) < y \<longleftrightarrow> unat x < unat y"
  by (simp add: word_less_nat_alt)

lemma remaining_unat:
  "(f::uint256) \<le> n \<Longrightarrow> (n - f < a) \<longleftrightarrow> unat n - unat f < unat a"
  by (simp add: word_less_nat_alt unat_sub)

lemma buyAmount_unat:
  "unat (b::uint256) * unat a < 2 ^ 256 \<Longrightarrow> unat (b * a div n) = unat b * unat a div unat n"
  by (simp add: unat_div unat_mul_256)

lemma add_balance_Inr:
  "add_balance u t a s = Inr s1 \<longleftrightarrow>
     unat (balances s u t) + unat a < 2 ^ 256 \<and> s1 = set_balance u t (balances s u t + a) s"
  by (auto simp: add_balance_def and_then_eq_Inr checked_add_Inr)

lemma sub_balance_Inr:
  "sub_balance u t a s = Inr s1 \<longleftrightarrow>
     a \<le> balances s u t \<and> s1 = set_balance u t (balances s u t - a) s"
  by (auto simp: sub_balance_def and_then_eq_Inr checked_sub_Inr)

lemma add_balance_Inl: "add_balance u t a s = Inl e \<Longrightarrow> e = Panic ArithmeticOverflow"
  by (simp add: add_balance_def checked_add_def split: if_splits)

lemma sub_balance_Inl: "sub_balance u t a s = Inl e \<Longrightarrow> e = Panic ArithmeticOverflow"
  by (simp add: sub_balance_def checked_sub_def split: if_splits)

lemma balances_set_balance:
  "balances (set_balance u t v s) u' t' = (if u' = u \<and> t' = t then v else balances s u' t')"
  by (simp add: set_balance_def)

lemma set_balance_fields [simp]:
  "filledAmountSell (set_balance u t v s) = filledAmountSell s"
  "cancelledOrders (set_balance u t v s) = cancelledOrders s"
  "events (set_balance u t v s) = events s"
  by (simp_all add: set_balance_def)

lemma emit_fields [simp]:
  "filledAmountSell (emit ev s) = filledAmountSell s"
  "cancelledOrders (emit ev s) = cancelledOrders s"
  "balances (emit ev s) = balances s"
  "events (emit ev s) = events s @ [ev]"
  by (simp_all add: emit_def)

lemma add_filled_Inr:
  "add_filled h a s = Inr s1 \<longleftrightarrow>
     unat (filledAmountSell s h) + unat a < 2 ^ 256 \<and>
     s1 = s\<lparr>filledAmountSell := (filledAmountSell s)(h := filledAmountSell s h + a)\<rparr>"
  by (auto simp: add_filled_def and_then_eq_Inr checked_add_Inr)

lemma add_filled_Inl: "add_filled h a s = Inl e \<Longrightarrow> e = Panic ArithmeticOverflow"
  by (simp add: add_filled_def checked_add_def split: if_splits)

lemma add_balance_keeps:
  assumes "add_balance u t a s = Inr s1"
  shows "filledAmountSell s1 = filledAmountSell s" "cancelledOrders s1 = cancelledOrders s"
    "events s1 = events s"
  using assms by (simp_all add: add_balance_Inr)

lemma sub_balance_keeps:
  assumes "sub_balance u t a s = Inr s1"
  shows "filledAmountSell s1 = filledAmountSell s" "cancelledOrders s1 = cancelledOrders s"
    "events s1 = events s"
  using assms by (simp_all add: sub_balance_Inr)

text \<open>The effect of one update on any ledger entry, as an integer.\<close>

lemma add_balance_entry:
  assumes "add_balance u t a s = Inr s1"
  shows "int (unat (balances s1 u' t')) =
           int (unat (balances s u' t')) + (if u' = u \<and> t' = t then int (unat a) else 0)"
proof -
  from assms have n: "unat (balances s u t) + unat a < 2 ^ 256"
    and s1: "s1 = set_balance u t (balances s u t + a) s"
    by (simp_all add: add_balance_Inr)
  have "int (unat (balances s u t + a)) = int (unat (balances s u t)) + int (unat a)"
    by (simp only: unat_add_256 [OF n] of_nat_add)
  then show ?thesis by (simp add: s1 balances_set_balance)
qed

lemma sub_balance_entry:
  assumes "sub_balance u t a s = Inr s1"
  shows "int (unat (balances s1 u' t')) =
           int (unat (balances s u' t')) - (if u' = u \<and> t' = t then int (unat a) else 0)"
proof -
  from assms have n: "a \<le> balances s u t"
    and s1: "s1 = set_balance u t (balances s u t - a) s"
    by (simp_all add: sub_balance_Inr)
  have "unat a \<le> unat (balances s u t)" using n by (simp add: word_le_nat_alt)
  then have "int (unat (balances s u t - a)) = int (unat (balances s u t)) - int (unat a)"
    by (simp only: unat_sub [OF n] of_nat_diff)
  then show ?thesis by (simp add: s1 balances_set_balance)
qed

lemma proportionalBuyAmount_Inr:
  "proportionalBuyAmount order a = Inr c \<longleftrightarrow>
     unat (amountBuy order) * unat a < 2 ^ 256 \<and> amountSell order \<noteq> 0 \<and>
     c = amountBuy order * a div amountSell order"
  by (auto simp: proportionalBuyAmount_def and_then_eq_Inr checked_mul_Inr checked_div_Inr)

subsection \<open>The sum of the entries of a token\<close>

lemma total_balance_cong: "balances s' = balances s \<Longrightarrow> total_balance s' t = total_balance s t"
  by (simp add: total_balance_def)

lemma total_balance_emit [simp]: "total_balance (emit ev s) t = total_balance s t"
  by (simp add: total_balance_def)

lemma total_set_balance:
  "total_balance (set_balance u t v s) t' + (if t' = t then unat (balances s u t) else 0)
     = total_balance s t' + (if t' = t then unat v else 0)"
proof (cases "t' = t")
  case False
  then show ?thesis by (simp add: total_balance_def balances_set_balance)
next
  case True
  have a: "(\<Sum>x\<in>UNIV. unat (balances (set_balance u t v s) x t))
        = unat v + (\<Sum>x\<in>UNIV - {u}. unat (balances (set_balance u t v s) x t))"
    using sum.remove [of UNIV u "\<lambda>x. unat (balances (set_balance u t v s) x t)"]
    by (simp add: balances_set_balance)
  have b: "(\<Sum>x\<in>UNIV. unat (balances s x t))
        = unat (balances s u t) + (\<Sum>x\<in>UNIV - {u}. unat (balances s x t))"
    using sum.remove [of UNIV u "\<lambda>x. unat (balances s x t)"] by simp
  have c: "(\<Sum>x\<in>UNIV - {u}. unat (balances (set_balance u t v s) x t))
        = (\<Sum>x\<in>UNIV - {u}. unat (balances s x t))"
    by (rule sum.cong) (simp_all add: balances_set_balance)
  show ?thesis using True a b c by (simp add: total_balance_def)
qed

lemma total_add_balance:
  assumes "add_balance u t a s = Inr s1"
  shows "total_balance s1 t' = total_balance s t' + (if t' = t then unat a else 0)"
proof -
  from assms have n: "unat (balances s u t) + unat a < 2 ^ 256"
    and s1: "s1 = set_balance u t (balances s u t + a) s"
    by (simp_all add: add_balance_Inr)
  show ?thesis
    using total_set_balance [of u t "balances s u t + a" s t'] unat_add_256 [OF n]
    by (simp add: s1 split: if_splits)
qed

lemma total_sub_balance:
  assumes "sub_balance u t a s = Inr s1"
  shows "total_balance s1 t' + (if t' = t then unat a else 0) = total_balance s t'"
proof -
  from assms have n: "a \<le> balances s u t"
    and s1: "s1 = set_balance u t (balances s u t - a) s"
    by (simp_all add: sub_balance_Inr)
  have "unat a \<le> unat (balances s u t)" using n by (simp add: word_le_nat_alt)
  then show ?thesis
    using total_set_balance [of u t "balances s u t - a" s t'] unat_sub [OF n]
    by (simp add: s1 split: if_splits)
qed

lemma add_filled_keeps:
  assumes "add_filled h a s = Inr s1"
  shows "balances s1 = balances s" "cancelledOrders s1 = cancelledOrders s"
    "events s1 = events s" "total_balance s1 t = total_balance s t"
  using assms by (simp_all add: add_filled_Inr total_balance_def)

subsection \<open>A fill that returns\<close>

lemma internal_fillOrder_Inr:
  assumes "internal_fillOrder D E order a sig s = Inr s'"
  defines "h \<equiv> internal_orderHash D order"
  defines "p \<equiv> (amountBuy order * a) div amountSell order"
  shows "\<not> expiration order < timestamp E"
    and "taker order = 0 \<or> taker order = sender E"
    and "\<not> cancelledOrders s h"
    and "recover D h sig = Inr (maker order)"
    and "filledAmountSell s h \<le> amountSell order"
    and "a \<le> amountSell order - filledAmountSell s h"
    and "unat (amountBuy order) * unat a < 2 ^ 256"
    and "amountSell order \<noteq> 0"
    and "a \<le> balances s (maker order) (tokenSell order)"
    and "p \<le> balances s (sender E) (tokenBuy order)"
    and "\<exists>s1 s2 s3 s4 s5.
           sub_balance (maker order) (tokenSell order) a s = Inr s1 \<and>
           add_balance (maker order) (tokenBuy order) p s1 = Inr s2 \<and>
           sub_balance (sender E) (tokenBuy order) p s2 = Inr s3 \<and>
           add_balance (sender E) (tokenSell order) a s3 = Inr s4 \<and>
           add_filled h a s4 = Inr s5 \<and>
           s' = emit (OrderFilled h (sender E) a) s5"
  using assms(1) unfolding h_def p_def internal_fillOrder_def Let_def
  by (auto simp: and_then_eq_Inr checked_sub_Inr checked_mul_Inr checked_div_Inr
        proportionalBuyAmount_def settle_def not_less split: if_splits sum.splits)

lemma internal_fillOrder_total:
  assumes "internal_fillOrder D E order a sig s = Inr s'"
  shows "total_balance s' t = total_balance s t"
proof -
  define p where "p = (amountBuy order * a) div amountSell order"
  define h where "h = internal_orderHash D order"
  from internal_fillOrder_Inr(11) [OF assms] obtain s1 s2 s3 s4 s5 where
    1: "sub_balance (maker order) (tokenSell order) a s = Inr s1" and
    2: "add_balance (maker order) (tokenBuy order) p s1 = Inr s2" and
    3: "sub_balance (sender E) (tokenBuy order) p s2 = Inr s3" and
    4: "add_balance (sender E) (tokenSell order) a s3 = Inr s4" and
    5: "add_filled h a s4 = Inr s5" and
    6: "s' = emit (OrderFilled h (sender E) a) s5"
    unfolding p_def h_def by blast
  show ?thesis
    using total_sub_balance [OF 1, of t] total_add_balance [OF 2, of t]
      total_sub_balance [OF 3, of t] total_add_balance [OF 4, of t]
      add_filled_keeps(4) [OF 5, of t]
    by (simp add: 6 split: if_splits)
qed

lemma internal_fillOrder_cancelled:
  assumes "internal_fillOrder D E order a sig s = Inr s'"
  shows "cancelledOrders s' = cancelledOrders s"
proof -
  from internal_fillOrder_Inr(11) [OF assms] obtain s1 s2 s3 s4 s5 p h where
    1: "sub_balance (maker order) (tokenSell order) a s = Inr s1" and
    2: "add_balance (maker order) (tokenBuy order) p s1 = Inr s2" and
    3: "sub_balance (sender E) (tokenBuy order) p s2 = Inr s3" and
    4: "add_balance (sender E) (tokenSell order) a s3 = Inr s4" and
    5: "add_filled h a s4 = Inr s5" and
    6: "s' = emit (OrderFilled h (sender E) a) s5"
    by blast
  show ?thesis
    using sub_balance_keeps(2) [OF 1] add_balance_keeps(2) [OF 2]
      sub_balance_keeps(2) [OF 3] add_balance_keeps(2) [OF 4] add_filled_keeps(2) [OF 5]
    by (simp add: 6)
qed

lemma internal_fillOrder_filled:
  assumes "internal_fillOrder D E order a sig s = Inr s'"
  shows "filledAmountSell s' =
           (filledAmountSell s)(internal_orderHash D order :=
              filledAmountSell s (internal_orderHash D order) + a)"
    and "unat (filledAmountSell s (internal_orderHash D order) + a)
           = unat (filledAmountSell s (internal_orderHash D order)) + unat a"
    and "unat (filledAmountSell s (internal_orderHash D order)) + unat a
           \<le> unat (amountSell order)"
proof -
  define p where "p = (amountBuy order * a) div amountSell order"
  define h where "h = internal_orderHash D order"
  from internal_fillOrder_Inr(11) [OF assms] obtain s1 s2 s3 s4 s5 where
    1: "sub_balance (maker order) (tokenSell order) a s = Inr s1" and
    2: "add_balance (maker order) (tokenBuy order) p s1 = Inr s2" and
    3: "sub_balance (sender E) (tokenBuy order) p s2 = Inr s3" and
    4: "add_balance (sender E) (tokenSell order) a s3 = Inr s4" and
    5: "add_filled h a s4 = Inr s5" and
    6: "s' = emit (OrderFilled h (sender E) a) s5"
    unfolding p_def h_def by blast
  have f4: "filledAmountSell s4 = filledAmountSell s"
    using sub_balance_keeps(1) [OF 1] add_balance_keeps(1) [OF 2]
      sub_balance_keeps(1) [OF 3] add_balance_keeps(1) [OF 4]
    by simp
  from 5 have "s5 = s4\<lparr>filledAmountSell := (filledAmountSell s4)(h := filledAmountSell s4 h + a)\<rparr>"
    by (simp add: add_filled_Inr)
  then show "filledAmountSell s' =
           (filledAmountSell s)(internal_orderHash D order :=
              filledAmountSell s (internal_orderHash D order) + a)"
    by (simp add: 6 f4 h_def)
  have le: "filledAmountSell s h \<le> amountSell order"
    and rem: "a \<le> amountSell order - filledAmountSell s h"
    using internal_fillOrder_Inr(5,6) [OF assms] by (simp_all add: h_def)
  have "unat a \<le> unat (amountSell order) - unat (filledAmountSell s h)"
    using rem unat_sub [OF le] by (simp add: word_le_nat_alt)
  moreover have "unat (filledAmountSell s h) \<le> unat (amountSell order)"
    using le by (simp add: word_le_nat_alt)
  ultimately show b: "unat (filledAmountSell s (internal_orderHash D order)) + unat a
           \<le> unat (amountSell order)"
    by (simp add: h_def)
  have "unat (amountSell order) < 2 ^ 256"
    using unsigned_less [of "amountSell order", where ?'a = nat] by simp
  with b have "unat (filledAmountSell s h) + unat a < 2 ^ 256"
    by (simp add: h_def)
  from unat_add_256 [OF this]
  show "unat (filledAmountSell s (internal_orderHash D order) + a)
           = unat (filledAmountSell s (internal_orderHash D order)) + unat a"
    by (simp add: h_def)
qed


text \<open>A fill touches the fill counter of its own digest only, and no cancellation
  flag: orders with different digests have independent counters and flags.\<close>

lemma internal_fillOrder_other_digest:
  assumes "internal_fillOrder D E order a sig s = Inr s'"
    and "h \<noteq> internal_orderHash D order"
  shows "filledAmountSell s' h = filledAmountSell s h"
    and "cancelledOrders s' h = cancelledOrders s h"
  using assms(2)
  by (simp_all add: internal_fillOrder_filled(1) [OF assms(1)]
      internal_fillOrder_cancelled [OF assms(1)])

lemma internal_fillOrder_entry:
  assumes "internal_fillOrder D E order a sig s = Inr s'"
  shows "int (unat (balances s' u t)) =
           int (unat (balances s u t))
           - (if u = maker order \<and> t = tokenSell order then int (unat a) else 0)
           + (if u = maker order \<and> t = tokenBuy order
              then int (unat (amountBuy order) * unat a div unat (amountSell order)) else 0)
           - (if u = sender E \<and> t = tokenBuy order
              then int (unat (amountBuy order) * unat a div unat (amountSell order)) else 0)
           + (if u = sender E \<and> t = tokenSell order then int (unat a) else 0)"
proof -
  define p where "p = (amountBuy order * a) div amountSell order"
  define h where "h = internal_orderHash D order"
  from internal_fillOrder_Inr(11) [OF assms] obtain s1 s2 s3 s4 s5 where
    1: "sub_balance (maker order) (tokenSell order) a s = Inr s1" and
    2: "add_balance (maker order) (tokenBuy order) p s1 = Inr s2" and
    3: "sub_balance (sender E) (tokenBuy order) p s2 = Inr s3" and
    4: "add_balance (sender E) (tokenSell order) a s3 = Inr s4" and
    5: "add_filled h a s4 = Inr s5" and
    6: "s' = emit (OrderFilled h (sender E) a) s5"
    unfolding p_def h_def by blast
  have p: "unat p = unat (amountBuy order) * unat a div unat (amountSell order)"
    using unat_mul_256 [OF internal_fillOrder_Inr(7) [OF assms]]
    by (simp add: p_def unat_div)
  have "balances s' = balances s4"
    using add_filled_keeps(1) [OF 5] by (simp add: 6)
  then show ?thesis
    using sub_balance_entry [OF 1, of u t] add_balance_entry [OF 2, of u t]
      sub_balance_entry [OF 3, of u t] add_balance_entry [OF 4, of u t]
    by (simp only: p)
qed

subsection \<open>The order of the rejections of a fill\<close>

lemma settle_Inl: "settle E order a p h s = Inl e \<Longrightarrow> e = Panic ArithmeticOverflow"
  unfolding settle_def and_then_eq_Inl
  by (auto dest: add_balance_Inl sub_balance_Inl add_filled_Inl)

lemma settle_declared:
  "settle E order a p h s \<noteq> Inl InsufficientOrderRemaining"
  "settle E order a p h s \<noteq> Inl MakerInsufficientBalance"
  "settle E order a p h s \<noteq> Inl TakerInsufficientBalance"
  "settle E order a p h s \<noteq> Inl OrderExpired"
  "settle E order a p h s \<noteq> Inl NotAuthorizedTaker"
  "settle E order a p h s \<noteq> Inl OrderAlreadyCancelled"
  "settle E order a p h s \<noteq> Inl InvalidSignature"
  "settle E order a p h s \<noteq> Inl (ECDSA e)"
  "settle E order a p h s \<noteq> Inl (Panic DivisionByZero)"
  using settle_Inl [of E order a p h s] by auto

lemma internal_fillOrder_after_checks:
  assumes "passes_checks D E order sig s"
  shows "internal_fillOrder D E order a sig s =
     (if \<not> filledAmountSell s (internal_orderHash D order) \<le> amountSell order
      then Inl (Panic ArithmeticOverflow)
      else if amountSell order - filledAmountSell s (internal_orderHash D order) < a
      then Inl InsufficientOrderRemaining
      else if \<not> unat (amountBuy order) * unat a < 2 ^ 256 then Inl (Panic ArithmeticOverflow)
      else if amountSell order = 0 then Inl (Panic DivisionByZero)
      else if balances s (maker order) (tokenSell order) < a then Inl MakerInsufficientBalance
      else if balances s (sender E) (tokenBuy order) < amountBuy order * a div amountSell order
      then Inl TakerInsufficientBalance
      else settle E order a (amountBuy order * a div amountSell order)
             (internal_orderHash D order) s)"
proof -
  from assms have 1: "\<not> expiration order < timestamp E"
    and 3: "\<not> cancelledOrders s (internal_orderHash D order)"
    and 4: "recover D (internal_orderHash D order) sig = Inr (maker order)"
    and 2: "taker order = 0 \<or> taker order = sender E"
    by (simp_all add: passes_checks_def)
  from 2 show ?thesis
  proof
    assume "taker order = 0"
    then show ?thesis
      by (simp add: 1 3 4 internal_fillOrder_def Let_def checked_sub_def
          proportionalBuyAmount_def checked_mul_def checked_div_def settle_def)
  next
    assume "taker order = sender E"
    then show ?thesis
      by (simp add: 1 3 4 internal_fillOrder_def Let_def checked_sub_def
          proportionalBuyAmount_def checked_mul_def checked_div_def settle_def)
  qed
qed

lemma internal_fillOrder_before_checks:
  assumes "\<not> passes_checks D E order sig s"
  shows "internal_fillOrder D E order a sig s =
     (if expiration order < timestamp E then Inl OrderExpired
      else if taker order \<noteq> 0 \<and> taker order \<noteq> sender E then Inl NotAuthorizedTaker
      else if cancelledOrders s (internal_orderHash D order) then Inl OrderAlreadyCancelled
      else case recover D (internal_orderHash D order) sig of
             Inl e \<Rightarrow> Inl (ECDSA e) | Inr signer \<Rightarrow> Inl InvalidSignature)"
  using assms
  by (auto simp: passes_checks_def internal_fillOrder_def Let_def split: sum.splits)

lemma fill_rejections_passed:
  assumes pc: "passes_checks D E order sig s"
  shows "(internal_fillOrder D E order a sig s = Inl InsufficientOrderRemaining \<longleftrightarrow>
            unat (filledAmountSell s (internal_orderHash D order)) \<le> unat (amountSell order) \<and>
            unat (amountSell order) - unat (filledAmountSell s (internal_orderHash D order)) < unat a)"
    and "(internal_fillOrder D E order a sig s = Inl MakerInsufficientBalance \<longleftrightarrow>
            unat (filledAmountSell s (internal_orderHash D order)) + unat a \<le> unat (amountSell order) \<and>
            amountSell order \<noteq> 0 \<and> unat (amountBuy order) * unat a < 2 ^ 256 \<and>
            unat (balances s (maker order) (tokenSell order)) < unat a)"
    and "(internal_fillOrder D E order a sig s = Inl TakerInsufficientBalance \<longleftrightarrow>
            unat (filledAmountSell s (internal_orderHash D order)) + unat a \<le> unat (amountSell order) \<and>
            amountSell order \<noteq> 0 \<and> unat (amountBuy order) * unat a < 2 ^ 256 \<and>
            unat a \<le> unat (balances s (maker order) (tokenSell order)) \<and>
            unat (balances s (sender E) (tokenBuy order))
              < unat (amountBuy order) * unat a div unat (amountSell order))"
    and "(internal_fillOrder D E order a sig s = Inl (Panic DivisionByZero) \<longleftrightarrow>
            unat (filledAmountSell s (internal_orderHash D order)) + unat a \<le> unat (amountSell order) \<and>
            amountSell order = 0)"
    and "internal_fillOrder D E order a sig s \<noteq> Inl OrderExpired"
    and "internal_fillOrder D E order a sig s \<noteq> Inl NotAuthorizedTaker"
    and "internal_fillOrder D E order a sig s \<noteq> Inl OrderAlreadyCancelled"
    and "internal_fillOrder D E order a sig s \<noteq> Inl InvalidSignature"
    and "internal_fillOrder D E order a sig s \<noteq> Inl (ECDSA e)"
proof -
  let ?f = "filledAmountSell s (internal_orderHash D order)"
  have ins: "?f \<le> amountSell order \<and> amountSell order - ?f < a \<longleftrightarrow>
      unat ?f \<le> unat (amountSell order) \<and> unat (amountSell order) - unat ?f < unat a"
    by (cases "?f \<le> amountSell order") (simp add: remaining_unat, simp add: word_le_unat, simp add: word_le_unat)
  show "(internal_fillOrder D E order a sig s = Inl InsufficientOrderRemaining \<longleftrightarrow>
            unat ?f \<le> unat (amountSell order) \<and> unat (amountSell order) - unat ?f < unat a)"
    unfolding ins [symmetric]
    by (auto simp: internal_fillOrder_after_checks [OF pc] settle_declared)
  have rem: "?f \<le> amountSell order \<and> \<not> amountSell order - ?f < a \<longleftrightarrow>
      unat ?f + unat a \<le> unat (amountSell order)"
  proof (cases "?f \<le> amountSell order")
    case True
    then have "unat ?f \<le> unat (amountSell order)" by (simp add: word_le_unat)
    then show ?thesis using True by (simp add: remaining_unat) arith
  next
    case False
    then have "unat (amountSell order) < unat ?f" by (simp add: word_le_unat)
    then show ?thesis using False by simp
  qed
  show "(internal_fillOrder D E order a sig s = Inl MakerInsufficientBalance \<longleftrightarrow>
            unat ?f + unat a \<le> unat (amountSell order) \<and>
            amountSell order \<noteq> 0 \<and> unat (amountBuy order) * unat a < 2 ^ 256 \<and>
            unat (balances s (maker order) (tokenSell order)) < unat a)"
    unfolding rem [symmetric]
    by (auto simp: internal_fillOrder_after_checks [OF pc] settle_declared word_less_unat)
  show "(internal_fillOrder D E order a sig s = Inl TakerInsufficientBalance \<longleftrightarrow>
            unat ?f + unat a \<le> unat (amountSell order) \<and>
            amountSell order \<noteq> 0 \<and> unat (amountBuy order) * unat a < 2 ^ 256 \<and>
            unat a \<le> unat (balances s (maker order) (tokenSell order)) \<and>
            unat (balances s (sender E) (tokenBuy order))
              < unat (amountBuy order) * unat a div unat (amountSell order))"
    unfolding rem [symmetric]
    by (auto simp: internal_fillOrder_after_checks [OF pc] settle_declared word_less_unat
        buyAmount_unat)
  show "(internal_fillOrder D E order a sig s = Inl (Panic DivisionByZero) \<longleftrightarrow>
            unat ?f + unat a \<le> unat (amountSell order) \<and> amountSell order = 0)"
    unfolding rem [symmetric]
    by (auto simp: internal_fillOrder_after_checks [OF pc] settle_declared word_gt_0)
  show "internal_fillOrder D E order a sig s \<noteq> Inl OrderExpired"
    "internal_fillOrder D E order a sig s \<noteq> Inl NotAuthorizedTaker"
    "internal_fillOrder D E order a sig s \<noteq> Inl OrderAlreadyCancelled"
    "internal_fillOrder D E order a sig s \<noteq> Inl InvalidSignature"
    "internal_fillOrder D E order a sig s \<noteq> Inl (ECDSA e)"
    by (simp_all add: internal_fillOrder_after_checks [OF pc] settle_declared)
qed

lemma fill_rejections_failed:
  assumes pc: "\<not> passes_checks D E order sig s"
  shows "internal_fillOrder D E order a sig s \<noteq> Inl InsufficientOrderRemaining"
    and "internal_fillOrder D E order a sig s \<noteq> Inl MakerInsufficientBalance"
    and "internal_fillOrder D E order a sig s \<noteq> Inl TakerInsufficientBalance"
    and "internal_fillOrder D E order a sig s \<noteq> Inl (Panic p)"
    and "internal_fillOrder D E order a sig s \<noteq> Inr s'"
  by (simp_all add: internal_fillOrder_before_checks [OF pc] split: sum.splits)

lemma fill_early_rejections:
  "(internal_fillOrder D E order a sig s = Inl OrderExpired \<longleftrightarrow>
      expiration order < timestamp E) \<and>
  (internal_fillOrder D E order a sig s = Inl NotAuthorizedTaker \<longleftrightarrow>
      \<not> expiration order < timestamp E \<and> taker order \<noteq> 0 \<and> taker order \<noteq> sender E) \<and>
  (internal_fillOrder D E order a sig s = Inl OrderAlreadyCancelled \<longleftrightarrow>
      \<not> expiration order < timestamp E \<and> (taker order = 0 \<or> taker order = sender E) \<and>
      cancelledOrders s (internal_orderHash D order)) \<and>
  (internal_fillOrder D E order a sig s = Inl (ECDSA e) \<longleftrightarrow>
      \<not> expiration order < timestamp E \<and> (taker order = 0 \<or> taker order = sender E) \<and>
      \<not> cancelledOrders s (internal_orderHash D order) \<and>
      recover D (internal_orderHash D order) sig = Inl e) \<and>
  (internal_fillOrder D E order a sig s = Inl InvalidSignature \<longleftrightarrow>
      \<not> expiration order < timestamp E \<and> (taker order = 0 \<or> taker order = sender E) \<and>
      \<not> cancelledOrders s (internal_orderHash D order) \<and>
      (\<exists>signer. recover D (internal_orderHash D order) sig = Inr signer \<and>
                signer \<noteq> maker order))"
proof (cases "passes_checks D E order sig s")
  case True
  from fill_rejections_passed(5-9) [OF True] True
  show ?thesis
    by (auto simp: passes_checks_def)
next
  case False
  then show ?thesis
    by (auto simp: internal_fillOrder_before_checks [OF False] passes_checks_def
        split: sum.splits)
qed

subsection \<open>Deposits, withdrawals and cancellations\<close>

lemma deposit_Inr:
  "deposit E token amount s = Inr s' \<longleftrightarrow>
     token \<noteq> 0 \<and> transfer_ok E \<and> unat (balances s (sender E) token) + unat amount < 2 ^ 256 \<and>
     s' = emit (Deposit (sender E) token amount)
            (set_balance (sender E) token (balances s (sender E) token + amount) s)"
  by (auto simp: deposit_def and_then_eq_Inr add_balance_Inr)

lemma withdraw_Inr:
  "withdraw E token amount s = Inr s' \<longleftrightarrow>
     token \<noteq> 0 \<and> transfer_ok E \<and> amount \<le> balances s (sender E) token \<and>
     s' = emit (Withdrawal (sender E) token amount)
            (set_balance (sender E) token (balances s (sender E) token - amount) s)"
  by (auto simp: withdraw_def and_then_eq_Inr sub_balance_Inr not_less split: if_splits)

lemma deposit_keeps:
  assumes "deposit E tok amount s = Inr s'"
  shows "filledAmountSell s' = filledAmountSell s" "cancelledOrders s' = cancelledOrders s"
  using assms by (simp_all add: deposit_Inr)

lemma withdraw_keeps:
  assumes "withdraw E tok amount s = Inr s'"
  shows "filledAmountSell s' = filledAmountSell s" "cancelledOrders s' = cancelledOrders s"
  using assms by (simp_all add: withdraw_Inr)

lemma deposit_total:
  assumes "deposit E tok amount s = Inr s'"
  shows "total_balance s' t = total_balance s t + (if t = tok then unat amount else 0)"
proof -
  from assms have n: "unat (balances s (sender E) tok) + unat amount < 2 ^ 256"
    and s': "s' = emit (Deposit (sender E) tok amount)
            (set_balance (sender E) tok (balances s (sender E) tok + amount) s)"
    by (simp_all add: deposit_Inr)
  have "add_balance (sender E) tok amount s
      = Inr (set_balance (sender E) tok (balances s (sender E) tok + amount) s)"
    using n by (simp add: add_balance_Inr)
  from total_add_balance [OF this, of t] show ?thesis by (simp add: s')
qed

lemma withdraw_total:
  assumes "withdraw E tok amount s = Inr s'"
  shows "total_balance s' t + (if t = tok then unat amount else 0) = total_balance s t"
proof -
  from assms have n: "amount \<le> balances s (sender E) tok"
    and s': "s' = emit (Withdrawal (sender E) tok amount)
            (set_balance (sender E) tok (balances s (sender E) tok - amount) s)"
    by (simp_all add: withdraw_Inr)
  have "sub_balance (sender E) tok amount s
      = Inr (set_balance (sender E) tok (balances s (sender E) tok - amount) s)"
    using n by (simp add: sub_balance_Inr)
  from total_sub_balance [OF this, of t] show ?thesis by (simp add: s')
qed

lemma deposit_entry:
  assumes "deposit E tok amount s = Inr s'"
  shows "int (unat (balances s' u t)) =
           int (unat (balances s u t))
           + (if u = sender E \<and> t = tok then int (unat amount) else 0)"
proof -
  from assms have n: "unat (balances s (sender E) tok) + unat amount < 2 ^ 256"
    and s': "s' = emit (Deposit (sender E) tok amount)
            (set_balance (sender E) tok (balances s (sender E) tok + amount) s)"
    by (simp_all add: deposit_Inr)
  have "add_balance (sender E) tok amount s
      = Inr (set_balance (sender E) tok (balances s (sender E) tok + amount) s)"
    using n by (simp add: add_balance_Inr)
  from add_balance_entry [OF this, of u t] show ?thesis by (simp add: s')
qed

lemma withdraw_entry:
  assumes "withdraw E tok amount s = Inr s'"
  shows "int (unat (balances s' u t)) =
           int (unat (balances s u t))
           - (if u = sender E \<and> t = tok then int (unat amount) else 0)"
proof -
  from assms have n: "amount \<le> balances s (sender E) tok"
    and s': "s' = emit (Withdrawal (sender E) tok amount)
            (set_balance (sender E) tok (balances s (sender E) tok - amount) s)"
    by (simp_all add: withdraw_Inr)
  have "sub_balance (sender E) tok amount s
      = Inr (set_balance (sender E) tok (balances s (sender E) tok - amount) s)"
    using n by (simp add: sub_balance_Inr)
  from sub_balance_entry [OF this, of u t] show ?thesis by (simp add: s')
qed

lemma cancelOrder_Inr:
  "cancelOrder D E order s = Inr s' \<longleftrightarrow>
     sender E = maker order \<and>
     s' = emit (OrderCancelled (internal_orderHash D order) (sender E))
            (s\<lparr>cancelledOrders := (cancelledOrders s)(internal_orderHash D order := True)\<rparr>)"
  by (auto simp: cancelOrder_def Let_def)

lemma cancelOrder_keeps:
  assumes "cancelOrder D E order s = Inr s'"
  shows "filledAmountSell s' = filledAmountSell s" "balances s' = balances s"
    "cancelledOrders s' = (cancelledOrders s)(internal_orderHash D order := True)"
  using assms by (simp_all add: cancelOrder_Inr)

lemma cancelOrders_loop_Inr:
  "cancelOrders_loop D E orders i s = Inr s' \<Longrightarrow>
     balances s' = balances s \<and> filledAmountSell s' = filledAmountSell s \<and>
     (\<forall>h. cancelledOrders s h \<longrightarrow> cancelledOrders s' h)"
proof (induction "length orders - i" arbitrary: i s)
  case 0
  then show ?case by (simp add: cancelOrders_loop.simps [of D E orders i s])
next
  case (Suc n)
  then have lt: "i < length orders" by simp
  define s1 where "s1 = emit (OrderCancelled (internal_orderHash D (orders ! i)) (sender E))
      (s\<lparr>cancelledOrders := (cancelledOrders s)(internal_orderHash D (orders ! i) := True)\<rparr>)"
  have unf: "cancelOrders_loop D E orders i s =
      (if sender E \<noteq> maker (orders ! i) then Inl OnlyMakerCanCancel
       else cancelOrders_loop D E orders (i + 1) s1)"
    using lt by (subst cancelOrders_loop.simps) (simp add: s1_def Let_def)
  from Suc.prems have b: "cancelOrders_loop D E orders (i + 1) s1 = Inr s'"
    unfolding unf by (cases "sender E \<noteq> maker (orders ! i)") simp_all
  have "n = length orders - (i + 1)" using Suc.hyps(2) by simp
  from Suc.hyps(1) [OF this b] show ?case by (simp add: s1_def)
qed

lemma cancelOrdersBatch_Inr:
  assumes "cancelOrdersBatch D E orders s = Inr s'"
  shows "balances s' = balances s" "filledAmountSell s' = filledAmountSell s"
    "cancelledOrders s h \<Longrightarrow> cancelledOrders s' h"
proof -
  from assms have l: "cancelOrders_loop D E orders 0 s = Inr s'"
    by (simp add: cancelOrdersBatch_def split: if_splits)
  from cancelOrders_loop_Inr [OF l]
  show "balances s' = balances s" "filledAmountSell s' = filledAmountSell s"
    "cancelledOrders s h \<Longrightarrow> cancelledOrders s' h"
    by simp_all
qed

subsection \<open>The batch loop\<close>

lemma fillOrders_loop_preserves:
  assumes step: "\<And>order a sig s s'. P s \<Longrightarrow> internal_fillOrder D E order a sig s = Inr s' \<Longrightarrow> P s'"
  shows "P s \<Longrightarrow> fillOrders_loop D E orders amounts sigs i s = Inr s' \<Longrightarrow> P s'"
proof (induction "length orders - i" arbitrary: i s)
  case 0
  then show ?case by (simp add: fillOrders_loop.simps [of D E orders amounts sigs i s])
next
  case (Suc n)
  then have lt: "i < length orders" by simp
  with Suc.prems(2) obtain s1 where
    a: "internal_fillOrder D E (orders ! i) (amounts ! i) (sigs ! i) s = Inr s1" and
    b: "fillOrders_loop D E orders amounts sigs (i + 1) s1 = Inr s'"
    by (auto simp: fillOrders_loop.simps [of D E orders amounts sigs i s] and_then_eq_Inr)
  have p1: "P s1" using step [OF Suc.prems(1) a] .
  have "n = length orders - (i + 1)" using Suc.hyps(2) by simp
  from Suc.hyps(1) [OF this p1 b] show ?case .
qed

lemma fillOrdersBatch_loop:
  "fillOrdersBatch D E orders amounts sigs s = Inr s' \<Longrightarrow>
     fillOrders_loop D E orders amounts sigs 0 s = Inr s'"
  by (simp add: fillOrdersBatch_def split: if_splits)

lemma fillOrdersBatch_total:
  assumes "fillOrdersBatch D E orders amounts sigs s = Inr s'"
  shows "total_balance s' t = total_balance s t"
proof -
  from assms have l: "fillOrders_loop D E orders amounts sigs 0 s = Inr s'"
    by (simp add: fillOrdersBatch_def split: if_splits)
  show ?thesis
    by (rule fillOrders_loop_preserves
        [where P = "\<lambda>x. total_balance x t = total_balance s t", OF _ _ l])
      (simp_all add: internal_fillOrder_total)
qed

lemma fill_each_append:
  "fill_each D E (xs @ ys) s = and_then (fill_each D E xs s) (fill_each D E ys)"
proof (induction xs arbitrary: s)
  case Nil
  show ?case by simp
next
  case (Cons x xs)
  obtain order a sig where x: "x = (order, a, sig)" by (cases x)
  have "fill_each D E (xs @ ys) = (\<lambda>s. and_then (fill_each D E xs s) (fill_each D E ys))"
    by (rule ext) (rule Cons.IH)
  then show ?case by (simp add: x and_then_assoc)
qed

lemma fillOrders_loop_fill_each:
  assumes "length amounts = length orders" "length sigs = length orders"
  shows "i \<le> length orders \<Longrightarrow>
     fillOrders_loop D E orders amounts sigs i s
       = fill_each D E (drop i (zip orders (zip amounts sigs))) s"
proof (induction "length orders - i" arbitrary: i s)
  case 0
  then show ?case by (simp add: fillOrders_loop.simps [of D E orders amounts sigs i s])
next
  case (Suc n)
  then have lt: "i < length orders" by simp
  have n: "n = length orders - (i + 1)" using Suc.hyps(2) by simp
  have d: "drop i (zip orders (zip amounts sigs))
      = (orders ! i, amounts ! i, sigs ! i) # drop (i + 1) (zip orders (zip amounts sigs))"
    using lt assms by (simp add: Cons_nth_drop_Suc [symmetric])
  have "fillOrders_loop D E orders amounts sigs (i + 1) s1
      = fill_each D E (drop (i + 1) (zip orders (zip amounts sigs))) s1" for s1
    using Suc.hyps(1) [OF n, of s1] lt by simp
  then have IH: "fillOrders_loop D E orders amounts sigs (Suc i)
      = fill_each D E (drop (Suc i) (zip orders (zip amounts sigs)))"
    by (intro ext) simp
  show ?case
    unfolding d
    by (subst fillOrders_loop.simps) (simp add: lt IH fillOrder_def)
qed

subsection \<open>Transactions and sequences of transactions\<close>

lemma transact_total:
  "int (total_balance (transact D E c s) t) = int (total_balance s t) + custody_delta E c s t"
proof (cases c)
  case (CallDeposit tok amount)
  show ?thesis
  proof (cases "deposit E tok amount s")
    case (Inl e)
    then show ?thesis by (simp add: CallDeposit transact_def)
  next
    case (Inr s')
    from deposit_total [OF Inr, of t] show ?thesis
      by (simp add: CallDeposit transact_def Inr)
  qed
next
  case (CallWithdraw tok amount)
  show ?thesis
  proof (cases "withdraw E tok amount s")
    case (Inl e)
    then show ?thesis by (simp add: CallWithdraw transact_def)
  next
    case (Inr s')
    have "int (total_balance s' t + (if t = tok then unat amount else 0))
        = int (total_balance s t)"
      by (simp only: withdraw_total [OF Inr, of t])
    then show ?thesis
      by (simp add: CallWithdraw transact_def Inr split: if_splits)
  qed
next
  case (CallFillOrder order a sig)
  show ?thesis
  proof (cases "internal_fillOrder D E order a sig s")
    case (Inl e)
    then show ?thesis by (simp add: CallFillOrder transact_def fillOrder_def)
  next
    case (Inr s')
    from internal_fillOrder_total [OF Inr, of t] show ?thesis
      by (simp add: CallFillOrder transact_def fillOrder_def Inr)
  qed
next
  case (CallFillOrdersBatch orders amounts sigs)
  show ?thesis
  proof (cases "fillOrdersBatch D E orders amounts sigs s")
    case (Inl e)
    then show ?thesis by (simp add: CallFillOrdersBatch transact_def)
  next
    case (Inr s')
    from fillOrdersBatch_total [OF Inr, of t] show ?thesis
      by (simp add: CallFillOrdersBatch transact_def Inr)
  qed
next
  case (CallCancelOrder order)
  show ?thesis
  proof (cases "cancelOrder D E order s")
    case (Inl e)
    then show ?thesis by (simp add: CallCancelOrder transact_def)
  next
    case (Inr s')
    then have "balances s' = balances s" by (simp add: cancelOrder_Inr)
    from total_balance_cong [OF this, of t] show ?thesis
      by (simp add: CallCancelOrder transact_def Inr)
  qed
next
  case (CallCancelOrdersBatch orders)
  show ?thesis
  proof (cases "cancelOrdersBatch D E orders s")
    case (Inl e)
    then show ?thesis by (simp add: CallCancelOrdersBatch transact_def)
  next
    case (Inr s')
    from total_balance_cong [OF cancelOrdersBatch_Inr(1) [OF Inr], of t] show ?thesis
      by (simp add: CallCancelOrdersBatch transact_def Inr)
  qed
qed

lemma run_total:
  "int (total_balance (run D txs s) t) = int (total_balance s t) + net_custody D txs s t"
proof (induction txs arbitrary: s)
  case Nil
  show ?case by simp
next
  case (Cons tx txs)
  obtain E c where tx: "tx = (E, c)" by (cases tx)
  show ?case
    using Cons.IH [of "transact D E c s"] transact_total [of D E c s t]
    by (simp add: tx)
qed

lemma custody_delta_other: "\<not> is_custody_call c \<Longrightarrow> custody_delta E c s t = 0"
  by (cases c) simp_all

lemma net_custody_none:
  "(\<forall>(E, c) \<in> set txs. \<not> is_custody_call c) \<Longrightarrow> net_custody D txs s t = 0"
proof (induction txs arbitrary: s)
  case Nil
  show ?case by simp
next
  case (Cons tx txs)
  obtain E c where tx: "tx = (E, c)" by (cases tx)
  from Cons.prems have 1: "\<not> is_custody_call c" and 2: "\<forall>(E, c) \<in> set txs. \<not> is_custody_call c"
    by (simp_all add: tx)
  show ?case using Cons.IH [OF 2] custody_delta_other [OF 1] by (simp add: tx)
qed






lemma transact_cancelled:
  assumes c: "cancelledOrders s h"
  shows "cancelledOrders (transact D E c s) h"
proof (cases "dispatch D E c s")
  case (Inl e)
  then show ?thesis using c by (simp add: transact_def)
next
  case (Inr s')
  have "cancelledOrders s' h"
  proof (cases c)
    case (CallDeposit tok amount)
    with Inr deposit_keeps(2) [of E tok amount s s'] c show ?thesis by simp
  next
    case (CallWithdraw tok amount)
    with Inr withdraw_keeps(2) [of E tok amount s s'] c show ?thesis by simp
  next
    case (CallFillOrder order a sig)
    with Inr internal_fillOrder_cancelled [of D E order a sig s s'] c show ?thesis
      by (simp add: fillOrder_def)
  next
    case (CallFillOrdersBatch orders amounts sigs)
    with Inr have l: "fillOrders_loop D E orders amounts sigs 0 s = Inr s'"
      by (simp add: fillOrdersBatch_loop)
    show ?thesis
      by (rule fillOrders_loop_preserves [where P = "\<lambda>x. cancelledOrders x h", OF _ c l])
        (simp add: internal_fillOrder_cancelled)
  next
    case (CallCancelOrder order)
    with Inr cancelOrder_keeps(3) [of D E order s s'] c show ?thesis by simp
  next
    case (CallCancelOrdersBatch orders)
    with Inr cancelOrdersBatch_Inr(3) [of D E orders s s' h] c show ?thesis by simp
  qed
  then show ?thesis by (simp add: transact_def Inr)
qed

lemma run_cancelled: "cancelledOrders s h \<Longrightarrow> cancelledOrders (run D txs s) h"
proof (induction txs arbitrary: s)
  case Nil
  then show ?case by simp
next
  case (Cons tx txs)
  obtain E c where tx: "tx = (E, c)" by (cases tx)
  from Cons.IH [OF transact_cancelled [OF Cons.prems, of D E c]] show ?case by (simp add: tx)
qed

subsection \<open>The encoding of an order\<close>

text \<open>The encoding that is hashed determines the order: every field, the salt among
  them, enters the input of the digest. Two different orders have the same digest only
  if \<open>keccak256\<close> or \<open>_hashTypedDataV4\<close> collides on their encodings.\<close>

lemma address_ucast_inj:
  assumes "(ucast (a :: address) :: uint256) = ucast b"
  shows "a = b"
proof -
  have "uint (ucast a :: uint256) = uint a" "uint (ucast b :: uint256) = uint b"
    by (simp_all add: uint_up_ucast is_up)
  with assms have "uint a = uint b" by simp
  then show ?thesis by (rule word_uint_eqI)
qed

lemma abi_encode_order_inj:
  "abi_encode_order D o1 = abi_encode_order D o2 \<Longrightarrow> o1 = (o2 :: Order)"
  by (cases o1, cases o2) (auto simp: abi_encode_order_def dest: address_ucast_inj)

subsection \<open>The concrete inputs\<close>

lemma example_orderHash: "internal_orderHash example_deps order = amountSell order"
  by (simp add: internal_orderHash_def abi_encode_order_def example_deps_def)

lemma example_recover:
  "recover example_deps h (signature_of signer) = Inr (ucast signer)"
  "recover example_deps h [] = Inl (ECDSAInvalidSignatureLength 0)"
  by (simp_all add: example_deps_def signature_of_def)

lemma env_of_fields:
  "sender (env_of a) = a" "timestamp (env_of a) = 500" "transfer_ok (env_of a)"
  by (simp_all add: env_of_def)

lemma order_100_200_fields:
  "maker order_100_200 = 1" "taker order_100_200 = 0" "tokenSell order_100_200 = 10"
  "tokenBuy order_100_200 = 20" "amountSell order_100_200 = 100"
  "amountBuy order_100_200 = 200" "expiration order_100_200 = 1000"
  by (simp_all add: order_100_200_def)

lemma order_3_10_fields:
  "maker order_3_10 = 1" "taker order_3_10 = 0" "tokenSell order_3_10 = 10"
  "tokenBuy order_3_10 = 20" "amountSell order_3_10 = 3"
  "amountBuy order_3_10 = 10" "expiration order_3_10 = 1000"
  by (simp_all add: order_3_10_def)

lemma order_zero_sell_fields:
  "maker order_zero_sell = 1" "taker order_zero_sell = 0" "tokenSell order_zero_sell = 10"
  "tokenBuy order_zero_sell = 20" "amountSell order_zero_sell = 0"
  "amountBuy order_zero_sell = 10" "expiration order_zero_sell = 1000"
  by (simp_all add: order_zero_sell_def)

lemma order_huge_buy_fields:
  "maker order_huge_buy = 1" "taker order_huge_buy = 0" "tokenSell order_huge_buy = 10"
  "tokenBuy order_huge_buy = 20" "amountSell order_huge_buy = 2"
  "amountBuy order_huge_buy = 2 ^ 255" "expiration order_huge_buy = 1000"
  by (simp_all add: order_huge_buy_def)

lemma funded_state_fields:
  "filledAmountSell funded_state h = 0"
  "cancelledOrders funded_state h = False"
  "balances funded_state user token =
     (if user = 1 \<and> token = 10 then 100 else if user = 2 \<and> token = 20 then 500 else 0)"
  by (simp_all add: funded_state_def)

lemma initial_state_fields:
  "filledAmountSell initial_state h = 0"
  "cancelledOrders initial_state h = False"
  "balances initial_state user token = 0"
  by (simp_all add: initial_state_def)

lemma state_after_fill_40_fields:
  "filledAmountSell state_after_fill_40 h = (if h = 100 then 40 else 0)"
  "cancelledOrders state_after_fill_40 h = False"
  "balances state_after_fill_40 user token =
     (if user = 1 \<and> token = 10 then 60 else if user = 1 \<and> token = 20 then 80
      else if user = 2 \<and> token = 10 then 40 else if user = 2 \<and> token = 20 then 420 else 0)"
  by (simp_all add: state_after_fill_40_def)

lemma passes_huge: "passes_checks example_deps (env_of 2) order_huge_buy (signature_of 1) initial_state"
  by (simp add: passes_checks_def example_orderHash example_recover env_of_fields
      order_huge_buy_fields initial_state_fields)

lemma passes_zero: "passes_checks example_deps (env_of 2) order_zero_sell (signature_of 1) funded_state"
  by (simp add: passes_checks_def example_orderHash example_recover env_of_fields
      order_zero_sell_fields funded_state_fields)

lemma passes_100_200:
  "passes_checks example_deps (env_of 2) order_100_200 (signature_of 1) funded_state"
  by (simp add: passes_checks_def example_orderHash example_recover env_of_fields
      order_100_200_fields funded_state_fields)

lemma passes_after_fill_40:
  "passes_checks example_deps (env_of 2) order_100_200 (signature_of 1) state_after_fill_40"
  by (simp add: passes_checks_def example_orderHash example_recover env_of_fields
      order_100_200_fields state_after_fill_40_def)

lemma fill_40:
  "fillOrder example_deps (env_of 2) order_100_200 40 (signature_of 1) funded_state
     = Inr state_after_fill_40"
  unfolding fillOrder_def internal_fillOrder_after_checks [OF passes_100_200]
  by (auto simp: example_orderHash order_100_200_fields env_of_fields funded_state_fields settle_def
      sub_balance_def add_balance_def add_filled_def checked_add_def checked_sub_def
      set_balance_def emit_def funded_state_def state_after_fill_40_def fun_eq_iff)

lemma overfill_70:
  "fillOrder example_deps (env_of 2) order_100_200 70 (signature_of 1) state_after_fill_40
     = Inl InsufficientOrderRemaining"
  by (simp add: fillOrder_def fill_rejections_passed(1) [OF passes_after_fill_40]
      example_orderHash order_100_200_fields state_after_fill_40_fields)

section \<open>The properties of the specification\<close>

subsection \<open>C1: conservation\<close>

text \<open>
  Claim C1. For every token and every sequence of transactions, the sum over all users
  of \<open>balances[user][token]\<close> after the sequence is the sum before it plus the amounts
  of the deposits of that token that returned and minus the amounts of the withdrawals
  of that token that returned; in particular a sequence without deposits and
  withdrawals, and so any \<open>fillOrder\<close> and any \<open>fillOrdersBatch\<close>, leaves the sum
  unchanged. A deposit that returns increases the depositor's entry by exactly the
  amount and a withdrawal that returns decreases the caller's entry by exactly the
  amount, with no wrap-around, and neither touches another entry. Every entry is an
  unsigned 256-bit number, so none is ever negative.
\<close>

theorem conservation:
  "int (total_balance (run D txs s) token)
     = int (total_balance s token) + net_custody D txs s token \<and>
   ((\<forall>(E, c) \<in> set txs. \<not> is_custody_call c)
      \<longrightarrow> total_balance (run D txs s) token = total_balance s token) \<and>
   total_balance (transact D E (CallFillOrder order a sig) s) token = total_balance s token \<and>
   total_balance (transact D E (CallFillOrdersBatch orders amounts sigs) s) token
     = total_balance s token \<and>
   (\<forall>u t. uint (balances (transact D E (CallDeposit tok amount) s) u t)
      = uint (balances s u t)
        + (if succeeded (deposit E tok amount s) \<and> u = sender E \<and> t = tok
           then uint amount else 0)) \<and>
   (\<forall>u t. uint (balances (transact D E (CallWithdraw tok amount) s) u t)
      = uint (balances s u t)
        - (if succeeded (withdraw E tok amount s) \<and> u = sender E \<and> t = tok
           then uint amount else 0)) \<and>
   0 \<le> uint (balances (run D txs s) u' t')"
proof (intro conjI impI allI)
  show "int (total_balance (run D txs s) token)
     = int (total_balance s token) + net_custody D txs s token"
    by (rule run_total)
  show "total_balance (run D txs s) token = total_balance s token"
    if "\<forall>(E, c) \<in> set txs. \<not> is_custody_call c"
    using run_total [of D txs s token] net_custody_none [OF that, of D s token] by simp
  show "total_balance (transact D E (CallFillOrder order a sig) s) token = total_balance s token"
    using transact_total [of D E "CallFillOrder order a sig" s token] by simp
  show "total_balance (transact D E (CallFillOrdersBatch orders amounts sigs) s) token
     = total_balance s token"
    using transact_total [of D E "CallFillOrdersBatch orders amounts sigs" s token] by simp
  show "uint (balances (transact D E (CallDeposit tok amount) s) u t)
      = uint (balances s u t)
        + (if succeeded (deposit E tok amount s) \<and> u = sender E \<and> t = tok
           then uint amount else 0)" for u t
  proof (cases "deposit E tok amount s")
    case (Inl e)
    then show ?thesis by (simp add: transact_def)
  next
    case (Inr s')
    from deposit_entry [OF Inr, of u t] show ?thesis by (simp add: transact_def Inr)
  qed
  show "uint (balances (transact D E (CallWithdraw tok amount) s) u t)
      = uint (balances s u t)
        - (if succeeded (withdraw E tok amount s) \<and> u = sender E \<and> t = tok
           then uint amount else 0)" for u t
  proof (cases "withdraw E tok amount s")
    case (Inl e)
    then show ?thesis by (simp add: transact_def)
  next
    case (Inr s')
    from withdraw_entry [OF Inr, of u t] show ?thesis by (simp add: transact_def Inr)
  qed
  show "0 \<le> uint (balances (run D txs s) u' t')" by simp
qed


theorem conservation_witness:
  "run example_deps [(env_of 2, CallFillOrder order_100_200 40 (signature_of 1))] funded_state
     = state_after_fill_40 \<and>
   total_balance state_after_fill_40 20 = total_balance funded_state 20 \<and>
   succeeded (deposit (env_of 1) 10 5 funded_state) \<and>
   uint (balances (transact example_deps (env_of 1) (CallDeposit 10 5) funded_state) 1 10)
     = 105 \<and>
   succeeded (withdraw (env_of 1) 10 30 funded_state) \<and>
   uint (balances (transact example_deps (env_of 1) (CallWithdraw 10 30) funded_state) 1 10)
     = 70"
proof -
  let ?txs = "[(env_of 2, CallFillOrder order_100_200 40 (signature_of 1))]"
  have h: "\<forall>(E, c) \<in> set ?txs. \<not> is_custody_call c" by simp
  have r: "run example_deps ?txs funded_state = state_after_fill_40"
    by (simp add: transact_def fill_40)
  have d: "succeeded (deposit (env_of 1) 10 5 funded_state)"
    by (simp add: deposit_def add_balance_def checked_add_def env_of_fields funded_state_fields)
  have w: "succeeded (withdraw (env_of 1) 10 30 funded_state)"
    by (simp add: withdraw_def sub_balance_def checked_sub_def env_of_fields
        funded_state_fields)
  note t1 = conservation [where D = example_deps and txs = ?txs and s = funded_state
      and token = 20 and E = "env_of 1" and tok = 10 and amount = 5]
  note t2 = conservation [where D = example_deps and txs = ?txs and s = funded_state
      and token = 20 and E = "env_of 1" and tok = 10 and amount = 30]
  from t1 h r have 1: "total_balance state_after_fill_40 20 = total_balance funded_state 20"
    by simp
  from t1 d have 2:
    "uint (balances (transact example_deps (env_of 1) (CallDeposit 10 5) funded_state) 1 10)
       = 105"
    by (simp add: env_of_fields funded_state_fields)
  from t2 w have 3:
    "uint (balances (transact example_deps (env_of 1) (CallWithdraw 10 30) funded_state) 1 10)
       = 70"
    by (simp add: env_of_fields funded_state_fields)
  from r 1 d 2 w 3 show ?thesis by simp
qed

subsection \<open>C2: the fill counter is monotonic and bounded\<close>



subsection \<open>C3: the order of the rejections of \<open>fillOrder\<close>\<close>

text \<open>
  Claim C3, as stated, fails. It says that once the expiry, taker, cancellation,
  signature and remaining-capacity checks have passed, \<open>fillOrder\<close> rejects with
  \<open>MakerInsufficientBalance\<close> if and only if the maker's entry is too small. Between
  the remaining-capacity check and the balance checks the contract computes
  \<open>(order.amountBuy * amountToFill) / order.amountSell\<close> in checked arithmetic. For an
  order selling 2 for \<open>2 ^ 255\<close> and a fill of 2 by a taker, on a ledger where the
  maker holds nothing, the first five checks pass, the maker's entry is too small, and
  the call aborts with an arithmetic panic, not with \<open>MakerInsufficientBalance\<close>.
\<close>

theorem fillOrder_rejection_order_counterexample:
  "passes_checks example_deps (env_of 2) order_huge_buy (signature_of 1) initial_state \<and>
   \<not> amountSell order_huge_buy
        - filledAmountSell initial_state (internal_orderHash example_deps order_huge_buy) < 2 \<and>
   balances initial_state (maker order_huge_buy) (tokenSell order_huge_buy) < 2 \<and>
   fillOrder example_deps (env_of 2) order_huge_buy 2 (signature_of 1) initial_state
     = Inl (Panic ArithmeticOverflow) \<and>
   fillOrder example_deps (env_of 2) order_huge_buy 2 (signature_of 1) initial_state
     \<noteq> Inl MakerInsufficientBalance"
  by (simp add: passes_huge fillOrder_def internal_fillOrder_after_checks [OF passes_huge]
      example_orderHash order_huge_buy_fields initial_state_fields)


text \<open>
  Claim C3, amended. \<open>fillOrder\<close> rejects with \<open>OrderExpired\<close> iff the current time
  is strictly greater than \<open>order.expiration\<close>; else with \<open>NotAuthorizedTaker\<close> iff
  \<open>order.taker\<close> is not the zero address and differs from the caller; else with
  \<open>OrderAlreadyCancelled\<close> iff the digest is cancelled; else with the library's error
  iff \<open>ECDSA.recover\<close> reverts, and with \<open>InvalidSignature\<close> iff it returns a signer
  other than \<open>order.maker\<close>; else with \<open>InsufficientOrderRemaining\<close> iff the fill
  counter is at most \<open>order.amountSell\<close> and the remaining capacity is less than
  \<open>amountToFill\<close>; else, provided \<open>order.amountSell\<close> is not zero and
  \<open>order.amountBuy * amountToFill\<close> fits into 256 bits, with
  \<open>MakerInsufficientBalance\<close> iff the maker's entry is less than \<open>amountToFill\<close>,
  else with \<open>TakerInsufficientBalance\<close> iff the caller's entry is less than the counter
  amount. When that proviso fails the call aborts with an arithmetic panic. Whenever
  the call does not return, no ledger entry, fill counter or cancellation flag changes.
\<close>

theorem fillOrder_rejection_order:
  "(fillOrder D E order a sig s = Inl OrderExpired \<longleftrightarrow> expiration order < timestamp E) \<and>
   (fillOrder D E order a sig s = Inl NotAuthorizedTaker \<longleftrightarrow>
      \<not> expiration order < timestamp E \<and> taker order \<noteq> 0 \<and> taker order \<noteq> sender E) \<and>
   (fillOrder D E order a sig s = Inl OrderAlreadyCancelled \<longleftrightarrow>
      \<not> expiration order < timestamp E \<and> (taker order = 0 \<or> taker order = sender E) \<and>
      cancelledOrders s (internal_orderHash D order)) \<and>
   (fillOrder D E order a sig s = Inl (ECDSA e) \<longleftrightarrow>
      \<not> expiration order < timestamp E \<and> (taker order = 0 \<or> taker order = sender E) \<and>
      \<not> cancelledOrders s (internal_orderHash D order) \<and>
      recover D (internal_orderHash D order) sig = Inl e) \<and>
   (fillOrder D E order a sig s = Inl InvalidSignature \<longleftrightarrow>
      \<not> expiration order < timestamp E \<and> (taker order = 0 \<or> taker order = sender E) \<and>
      \<not> cancelledOrders s (internal_orderHash D order) \<and>
      (\<exists>signer. recover D (internal_orderHash D order) sig = Inr signer \<and>
                signer \<noteq> maker order)) \<and>
   (fillOrder D E order a sig s = Inl InsufficientOrderRemaining \<longleftrightarrow>
      passes_checks D E order sig s \<and>
      unat (filledAmountSell s (internal_orderHash D order)) \<le> unat (amountSell order) \<and>
      unat (amountSell order) - unat (filledAmountSell s (internal_orderHash D order))
        < unat a) \<and>
   (fillOrder D E order a sig s = Inl MakerInsufficientBalance \<longleftrightarrow>
      passes_checks D E order sig s \<and>
      unat (filledAmountSell s (internal_orderHash D order)) + unat a
        \<le> unat (amountSell order) \<and>
      amountSell order \<noteq> 0 \<and> unat (amountBuy order) * unat a < 2 ^ 256 \<and>
      unat (balances s (maker order) (tokenSell order)) < unat a) \<and>
   (fillOrder D E order a sig s = Inl TakerInsufficientBalance \<longleftrightarrow>
      passes_checks D E order sig s \<and>
      unat (filledAmountSell s (internal_orderHash D order)) + unat a
        \<le> unat (amountSell order) \<and>
      amountSell order \<noteq> 0 \<and> unat (amountBuy order) * unat a < 2 ^ 256 \<and>
      unat a \<le> unat (balances s (maker order) (tokenSell order)) \<and>
      unat (balances s (sender E) (tokenBuy order))
        < unat (amountBuy order) * unat a div unat (amountSell order)) \<and>
   (passes_checks D E order sig s \<and>
    unat (filledAmountSell s (internal_orderHash D order)) + unat a
      \<le> unat (amountSell order) \<and>
    (amountSell order = 0 \<or> \<not> unat (amountBuy order) * unat a < 2 ^ 256)
      \<longrightarrow> (\<exists>p. fillOrder D E order a sig s = Inl (Panic p))) \<and>
   (\<not> succeeded (fillOrder D E order a sig s)
      \<longrightarrow> transact D E (CallFillOrder order a sig) s = s)"
proof -
  let ?r = "internal_fillOrder D E order a sig s"
  let ?f = "filledAmountSell s (internal_orderHash D order)"
  have late: "(?r = Inl InsufficientOrderRemaining \<longleftrightarrow>
      passes_checks D E order sig s \<and> unat ?f \<le> unat (amountSell order) \<and>
      unat (amountSell order) - unat ?f < unat a) \<and>
   (?r = Inl MakerInsufficientBalance \<longleftrightarrow>
      passes_checks D E order sig s \<and> unat ?f + unat a \<le> unat (amountSell order) \<and>
      amountSell order \<noteq> 0 \<and> unat (amountBuy order) * unat a < 2 ^ 256 \<and>
      unat (balances s (maker order) (tokenSell order)) < unat a) \<and>
   (?r = Inl TakerInsufficientBalance \<longleftrightarrow>
      passes_checks D E order sig s \<and> unat ?f + unat a \<le> unat (amountSell order) \<and>
      amountSell order \<noteq> 0 \<and> unat (amountBuy order) * unat a < 2 ^ 256 \<and>
      unat a \<le> unat (balances s (maker order) (tokenSell order)) \<and>
      unat (balances s (sender E) (tokenBuy order))
        < unat (amountBuy order) * unat a div unat (amountSell order))"
  proof (cases "passes_checks D E order sig s")
    case True
    show ?thesis
      using fill_rejections_passed(1-3) [OF True, of a] True by simp
  next
    case False
    show ?thesis
      using fill_rejections_failed(1-3) [OF False, of a] False by simp
  qed
  have panic: "passes_checks D E order sig s \<and> unat ?f + unat a \<le> unat (amountSell order) \<and>
      (amountSell order = 0 \<or> \<not> unat (amountBuy order) * unat a < 2 ^ 256)
      \<longrightarrow> (\<exists>p. ?r = Inl (Panic p))"
  proof (intro impI, elim conjE)
    assume pc: "passes_checks D E order sig s"
      and le: "unat ?f + unat a \<le> unat (amountSell order)"
      and bad: "amountSell order = 0 \<or> \<not> unat (amountBuy order) * unat a < 2 ^ 256"
    have 1: "?f \<le> amountSell order" using le by (simp add: word_le_unat)
    have 2: "\<not> amountSell order - ?f < a" using le 1 by (simp add: remaining_unat)
    from bad show "\<exists>p. ?r = Inl (Panic p)"
      by (auto simp: internal_fillOrder_after_checks [OF pc] 1 2)
  qed
  have atomic: "\<not> succeeded (fillOrder D E order a sig s)
      \<longrightarrow> transact D E (CallFillOrder order a sig) s = s"
    by (cases "fillOrder D E order a sig s") (simp_all add: transact_def)
  show ?thesis
    unfolding fillOrder_def
    using fill_early_rejections [of D E order a sig s e] late panic atomic [unfolded fillOrder_def]
    by simp
qed

theorem fillOrder_rejection_order_witness:
  "passes_checks example_deps (env_of 2) order_zero_sell (signature_of 1) funded_state \<and>
   (\<exists>p. fillOrder example_deps (env_of 2) order_zero_sell 0 (signature_of 1) funded_state
          = Inl (Panic p)) \<and>
   \<not> succeeded (fillOrder example_deps (env_of 2) order_zero_sell 0 (signature_of 1) funded_state) \<and>
   transact example_deps (env_of 2) (CallFillOrder order_zero_sell 0 (signature_of 1)) funded_state
     = funded_state"
proof -
  note t = fillOrder_rejection_order
    [of example_deps "env_of 2" order_zero_sell 0 "signature_of 1" funded_state
      ECDSAInvalidSignature]
  have 1: "\<exists>p. fillOrder example_deps (env_of 2) order_zero_sell 0 (signature_of 1) funded_state
          = Inl (Panic p)"
    using t passes_zero
    by (simp add: example_orderHash order_zero_sell_fields funded_state_fields)
  then have 2: "\<not> succeeded
      (fillOrder example_deps (env_of 2) order_zero_sell 0 (signature_of 1) funded_state)"
    by auto
  with t have "transact example_deps (env_of 2)
      (CallFillOrder order_zero_sell 0 (signature_of 1)) funded_state = funded_state"
    by simp
  with 1 2 passes_zero show ?thesis by simp
qed


subsection \<open>C4: the proportional counter-amount\<close>

text \<open>
  Claim C4. Whenever \<open>fillOrder\<close> returns, \<open>order.amountSell\<close> is not zero and the
  counter-amount the contract computed is the floor of
  \<open>order.amountBuy * amountToFill / order.amountSell\<close>, taken over the natural numbers
  (no wrap-around). The ledger changes by exactly four transfers: the maker is debited
  \<open>amountToFill\<close> of the sell token and credited the counter-amount of the buy token,
  the caller is debited the counter-amount of the buy token and credited
  \<open>amountToFill\<close> of the sell token; every entry is its old value plus the credits
  and minus the debits that name it, and every other entry is unchanged. Selling 100
  for 200 and filling 40 gives 80; selling 3 for 10 and filling 1 gives 3, not 4.
\<close>

theorem proportional_counter_amount:
  "(fillOrder D E order a sig s = Inr s' \<longrightarrow>
      amountSell order \<noteq> 0 \<and>
      (\<exists>c. proportionalBuyAmount order a = Inr c \<and>
           unat c = unat (amountBuy order) * unat a div unat (amountSell order)) \<and>
      (\<forall>u t. int (unat (balances s' u t)) =
           int (unat (balances s u t))
           - (if u = maker order \<and> t = tokenSell order then int (unat a) else 0)
           + (if u = maker order \<and> t = tokenBuy order
              then int (unat (amountBuy order) * unat a div unat (amountSell order)) else 0)
           - (if u = sender E \<and> t = tokenBuy order
              then int (unat (amountBuy order) * unat a div unat (amountSell order)) else 0)
           + (if u = sender E \<and> t = tokenSell order then int (unat a) else 0))) \<and>
   proportionalBuyAmount order_100_200 40 = Inr 80 \<and>
   proportionalBuyAmount order_3_10 1 = Inr 3"
proof (intro conjI impI allI)
  assume ok: "fillOrder D E order a sig s = Inr s'"
  then have ok': "internal_fillOrder D E order a sig s = Inr s'" by (simp add: fillOrder_def)
  show "amountSell order \<noteq> 0" using internal_fillOrder_Inr(8) [OF ok'] .
  show "\<exists>c. proportionalBuyAmount order a = Inr c \<and>
           unat c = unat (amountBuy order) * unat a div unat (amountSell order)"
    using internal_fillOrder_Inr(7,8) [OF ok']
    by (simp add: proportionalBuyAmount_Inr buyAmount_unat)
  fix u t
  show "int (unat (balances s' u t)) =
           int (unat (balances s u t))
           - (if u = maker order \<and> t = tokenSell order then int (unat a) else 0)
           + (if u = maker order \<and> t = tokenBuy order
              then int (unat (amountBuy order) * unat a div unat (amountSell order)) else 0)
           - (if u = sender E \<and> t = tokenBuy order
              then int (unat (amountBuy order) * unat a div unat (amountSell order)) else 0)
           + (if u = sender E \<and> t = tokenSell order then int (unat a) else 0)"
    by (rule internal_fillOrder_entry [OF ok'])
next
  show "proportionalBuyAmount order_100_200 40 = Inr 80"
    by (simp add: proportionalBuyAmount_def checked_mul_def checked_div_def order_100_200_fields)
  show "proportionalBuyAmount order_3_10 1 = Inr 3"
    by (simp add: proportionalBuyAmount_def checked_mul_def checked_div_def order_3_10_fields)
qed

theorem proportional_counter_amount_witness:
  "fillOrder example_deps (env_of 2) order_100_200 40 (signature_of 1) funded_state
     = Inr state_after_fill_40 \<and>
   (\<exists>c. proportionalBuyAmount order_100_200 40 = Inr c \<and> unat c = 80) \<and>
   int (unat (balances state_after_fill_40 1 20)) = int (unat (balances funded_state 1 20)) + 80 \<and>
   int (unat (balances state_after_fill_40 2 20)) = int (unat (balances funded_state 2 20)) - 80 \<and>
   int (unat (balances state_after_fill_40 1 10)) = int (unat (balances funded_state 1 10)) - 40 \<and>
   int (unat (balances state_after_fill_40 2 10)) = int (unat (balances funded_state 2 10)) + 40"
proof -
  note t = proportional_counter_amount
    [of example_deps "env_of 2" order_100_200 40 "signature_of 1" funded_state
      state_after_fill_40, THEN conjunct1, rule_format, OF fill_40]
  from t have c: "\<exists>c. proportionalBuyAmount order_100_200 40 = Inr c \<and> unat c = 80"
    by (simp add: order_100_200_fields)
  from t have e: "\<And>u t. int (unat (balances state_after_fill_40 u t)) =
      int (unat (balances funded_state u t))
      - (if u = 1 \<and> t = 10 then 40 else 0) + (if u = 1 \<and> t = 20 then 80 else 0)
      - (if u = 2 \<and> t = 20 then 80 else 0) + (if u = 2 \<and> t = 10 then 40 else 0)"
    by (simp add: order_100_200_fields env_of_fields)
  show ?thesis
    using fill_40 c e [of 1 20] e [of 2 20] e [of 1 10] e [of 2 10] by simp
qed

subsection \<open>C5: the precondition of \<open>deposit\<close>\<close>

text \<open>
  Claim C5, as stated, fails: it says that a deposit of amount 0 is rejected. The
  contract checks the token address and nothing else, so a deposit of 0 of a valid
  token whose transfer goes through returns (and emits a \<open>Deposit\<close> event).
\<close>

theorem deposit_precondition_counterexample:
  "deposit (env_of 1) 10 0 funded_state = Inr (emit (Deposit 1 10 0) funded_state)"
  by (simp add: deposit_def add_balance_def checked_add_def set_balance_def env_of_fields
      funded_state_fields fun_upd_idem)

text \<open>
  Claim C5, amended. \<open>deposit\<close> requires a valid token and nothing of the amount: it
  returns if and only if the token is not the zero address, the external transfer goes
  through and the new entry fits into 256 bits. A call with the zero address is
  rejected with \<open>InvalidTokenAddress\<close>; a call whose transfer fails is rejected; in
  every rejection the state is unchanged. When the call returns, the depositor's entry
  for the token is its old value plus exactly the amount (also for amount 0) and no
  other entry changes.
\<close>

theorem deposit_precondition:
  "deposit E 0 amount s = Inl InvalidTokenAddress \<and>
   (succeeded (deposit E token amount s) \<longleftrightarrow>
      token \<noteq> 0 \<and> transfer_ok E \<and>
      unat (balances s (sender E) token) + unat amount < 2 ^ 256) \<and>
   (\<not> succeeded (deposit E token amount s)
      \<longrightarrow> transact D E (CallDeposit token amount) s = s) \<and>
   (deposit E token amount s = Inr s' \<longrightarrow>
      unat (balances s' (sender E) token) = unat (balances s (sender E) token) + unat amount \<and>
      (\<forall>u t. \<not> (u = sender E \<and> t = token) \<longrightarrow> balances s' u t = balances s u t))"
proof (intro conjI impI allI)
  show "deposit E 0 amount s = Inl InvalidTokenAddress" by (simp add: deposit_def)
  show "succeeded (deposit E token amount s) \<longleftrightarrow>
      token \<noteq> 0 \<and> transfer_ok E \<and>
      unat (balances s (sender E) token) + unat amount < 2 ^ 256"
    by (simp add: succeeded_iff deposit_Inr)
  show "transact D E (CallDeposit token amount) s = s"
    if "\<not> succeeded (deposit E token amount s)"
    using that by (cases "deposit E token amount s") (simp_all add: transact_def)
next
  assume ok: "deposit E token amount s = Inr s'"
  then have n: "unat (balances s (sender E) token) + unat amount < 2 ^ 256"
    and s': "s' = emit (Deposit (sender E) token amount)
            (set_balance (sender E) token (balances s (sender E) token + amount) s)"
    by (simp_all add: deposit_Inr)
  show "unat (balances s' (sender E) token)
      = unat (balances s (sender E) token) + unat amount"
    using unat_add_256 [OF n] by (simp add: s' balances_set_balance)
  show "balances s' u t = balances s u t" if "\<not> (u = sender E \<and> t = token)" for u t
    using that by (auto simp: s' balances_set_balance)
qed

theorem deposit_precondition_witness:
  "succeeded (deposit (env_of 1) 10 0 funded_state) \<and>
   deposit \<lparr> sender = 1, timestamp = 500, transfer_ok = False \<rparr> 10 5 funded_state
     = Inl TransferFailed \<and>
   transact example_deps \<lparr> sender = 1, timestamp = 500, transfer_ok = False \<rparr>
     (CallDeposit 10 5) funded_state = funded_state \<and>
   deposit (env_of 1) 10 5 funded_state
     = Inr (emit (Deposit 1 10 5) (set_balance 1 10 105 funded_state)) \<and>
   unat (balances (emit (Deposit 1 10 5) (set_balance 1 10 105 funded_state)) 1 10) = 100 + 5 \<and>
   balances (emit (Deposit 1 10 5) (set_balance 1 10 105 funded_state)) 2 20 = 500"
proof -
  let ?E = "\<lparr> sender = 1, timestamp = 500, transfer_ok = False \<rparr>"
  note t0 = deposit_precondition [where E = "env_of 1" and token = 10 and amount = 0
      and s = funded_state]
  note t1 = deposit_precondition [where D = example_deps and E = ?E and token = 10
      and amount = 5 and s = funded_state]
  note t2 = deposit_precondition [where E = "env_of 1" and token = 10 and amount = 5
      and s = funded_state
      and s' = "emit (Deposit 1 10 5) (set_balance 1 10 105 funded_state)"]
  from t0 have 0: "succeeded (deposit (env_of 1) 10 0 funded_state)"
    by (simp add: env_of_fields funded_state_fields)
  have f: "deposit ?E 10 5 funded_state = Inl TransferFailed"
    by (simp add: deposit_def)
  with t1 have 1: "transact example_deps ?E (CallDeposit 10 5) funded_state = funded_state"
    by simp
  have d: "deposit (env_of 1) 10 5 funded_state
     = Inr (emit (Deposit 1 10 5) (set_balance 1 10 105 funded_state))"
    by (simp add: deposit_def add_balance_def checked_add_def env_of_fields
        funded_state_fields)
  from t2 d
  have 2: "unat (balances (emit (Deposit 1 10 5) (set_balance 1 10 105 funded_state)) 1 10)
      = 100 + 5"
    and 3: "balances (emit (Deposit 1 10 5) (set_balance 1 10 105 funded_state)) 2 20 = 500"
    by (simp_all add: env_of_fields funded_state_fields)
  show ?thesis by (intro conjI) (rule 0 f 1 d 2 3)+
qed

subsection \<open>C6: \<open>verifyOrder\<close> on a malformed signature\<close>

text \<open>
  Claim C6, as stated, fails: it says that \<open>verifyOrder\<close> returns false, and does not
  raise, on a byte string that is not a well-formed signature. \<open>verifyOrder\<close> passes
  the signature to \<open>ECDSA.recover\<close> and has no handler around the call, so it reverts
  whenever \<open>recover\<close> does. The library's \<open>recover\<close> reverts on a signature that is not
  65 bytes long; with a \<open>recover\<close> that does so, \<open>verifyOrder\<close> on the empty signature
  reverts with \<open>ECDSAInvalidSignatureLength(0)\<close>.
\<close>

theorem verifyOrder_malformed_counterexample:
  "verifyOrder example_deps order_100_200 [] = Inl (ECDSA (ECDSAInvalidSignatureLength 0))"
  by (simp add: verifyOrder_def example_recover)

text \<open>
  Claim C6, amended. \<open>verifyOrder\<close> is a view function: it reads and writes neither
  the ledger nor the fill counters nor the cancellation set (in the model it neither
  takes nor returns a state). It recovers the signer from the digest that
  \<open>getOrderHash\<close> returns, the one \<open>fillOrder\<close> uses. It returns true iff \<open>recover\<close>
  returns \<open>order.maker\<close>, returns false iff \<open>recover\<close> returns another address, and
  reverts, with the error of \<open>recover\<close>, iff \<open>recover\<close> reverts.
\<close>

theorem verifyOrder_result:
  "(verifyOrder D order sig = Inr True \<longleftrightarrow>
      recover D (getOrderHash D order) sig = Inr (maker order)) \<and>
   (verifyOrder D order sig = Inr False \<longleftrightarrow>
      (\<exists>signer. recover D (getOrderHash D order) sig = Inr signer \<and> signer \<noteq> maker order)) \<and>
   (verifyOrder D order sig = Inl err \<longleftrightarrow>
      (\<exists>e. recover D (getOrderHash D order) sig = Inl e \<and> err = ECDSA e)) \<and>
   (passes_checks D E order sig s \<longrightarrow> verifyOrder D order sig = Inr True)"
  by (auto simp: verifyOrder_def getOrderHash_def internal_orderHash_def Let_def
      passes_checks_def split: sum.splits)

theorem verifyOrder_result_witness:
  "passes_checks example_deps (env_of 2) order_100_200 (signature_of 1) funded_state \<and>
   verifyOrder example_deps order_100_200 (signature_of 1) = Inr True \<and>
   verifyOrder example_deps order_100_200 (signature_of 3) = Inr False"
proof -
  have 1: "verifyOrder example_deps order_100_200 (signature_of 1) = Inr True"
    using verifyOrder_result [where D = example_deps and order = order_100_200
        and sig = "signature_of 1" and E = "env_of 2" and s = funded_state]
      passes_100_200
    by simp
  have 2: "verifyOrder example_deps order_100_200 (signature_of 3) = Inr False"
    using verifyOrder_result [where D = example_deps and order = order_100_200
        and sig = "signature_of 3"]
    by (simp add: example_recover order_100_200_fields)
  show ?thesis by (intro conjI) (rule passes_100_200 1 2)+
qed

subsection \<open>C7: the batch fill\<close>

text \<open>
  Claim C7. \<open>fillOrdersBatch\<close> rejects with \<open>ArrayLengthMismatch\<close> when the three
  arrays differ in length, and with \<open>TooManyOrders\<close> when they have the same length and
  it exceeds \<open>MAX_BATCH_SIZE\<close>, which is 5. Otherwise its result is that of applying
  \<open>fillOrder\<close> to the elements one after the other in array order, with the same
  caller and timestamp: when every element succeeds the final state is the state after
  the last fill, and when an element fails after its predecessors succeeded, the batch
  fails with that element's error. Whenever the batch fails, no ledger entry, fill
  counter or cancellation flag changes.
\<close>

theorem batch_fill_contract:
  "(length orders \<noteq> length amounts \<or> length orders \<noteq> length sigs
      \<longrightarrow> fillOrdersBatch D E orders amounts sigs s = Inl ArrayLengthMismatch) \<and>
   (length orders = length amounts \<and> length orders = length sigs \<and>
    MAX_BATCH_SIZE < length orders
      \<longrightarrow> fillOrdersBatch D E orders amounts sigs s = Inl TooManyOrders) \<and>
   MAX_BATCH_SIZE = 5 \<and>
   (length orders = length amounts \<and> length orders = length sigs \<and>
    length orders \<le> MAX_BATCH_SIZE
      \<longrightarrow> fillOrdersBatch D E orders amounts sigs s
            = fill_each D E (zip orders (zip amounts sigs)) s) \<and>
   (fill_each D E xs s = Inr s1 \<longrightarrow> fill_each D E (xs @ ys) s = fill_each D E ys s1) \<and>
   (fill_each D E xs s = Inr s1 \<and> fillOrder D E order a sig s1 = Inl e
      \<longrightarrow> fill_each D E (xs @ (order, a, sig) # ys) s = Inl e) \<and>
   (\<not> succeeded (fillOrdersBatch D E orders amounts sigs s)
      \<longrightarrow> transact D E (CallFillOrdersBatch orders amounts sigs) s = s)"
proof (intro conjI impI)
  show "fillOrdersBatch D E orders amounts sigs s = Inl ArrayLengthMismatch"
    if "length orders \<noteq> length amounts \<or> length orders \<noteq> length sigs"
    using that by (simp add: fillOrdersBatch_def)
  show "fillOrdersBatch D E orders amounts sigs s = Inl TooManyOrders"
    if "length orders = length amounts \<and> length orders = length sigs \<and>
        MAX_BATCH_SIZE < length orders"
    using that by (simp add: fillOrdersBatch_def)
  show "MAX_BATCH_SIZE = 5" by (simp add: MAX_BATCH_SIZE_def)
  show "fillOrdersBatch D E orders amounts sigs s
      = fill_each D E (zip orders (zip amounts sigs)) s"
    if "length orders = length amounts \<and> length orders = length sigs \<and>
        length orders \<le> MAX_BATCH_SIZE"
    using that fillOrders_loop_fill_each [of amounts orders sigs 0 D E s]
    by (simp add: fillOrdersBatch_def)
  show "fill_each D E (xs @ ys) s = fill_each D E ys s1" if "fill_each D E xs s = Inr s1"
    using that by (simp add: fill_each_append)
  show "fill_each D E (xs @ (order, a, sig) # ys) s = Inl e"
    if "fill_each D E xs s = Inr s1 \<and> fillOrder D E order a sig s1 = Inl e"
    using that by (simp add: fill_each_append)
  show "transact D E (CallFillOrdersBatch orders amounts sigs) s = s"
    if "\<not> succeeded (fillOrdersBatch D E orders amounts sigs s)"
    using that
    by (cases "fillOrdersBatch D E orders amounts sigs s") (simp_all add: transact_def)
qed

theorem batch_fill_contract_witness:
  "fillOrdersBatch example_deps (env_of 2) [order_100_200] [40, 70] [signature_of 1] funded_state
     = Inl ArrayLengthMismatch \<and>
   fillOrdersBatch example_deps (env_of 2) (replicate 6 order_100_200) (replicate 6 1)
       (replicate 6 (signature_of 1)) funded_state
     = Inl TooManyOrders \<and>
   fillOrdersBatch example_deps (env_of 2) [order_100_200] [40] [signature_of 1] funded_state
     = Inr state_after_fill_40 \<and>
   fillOrdersBatch example_deps (env_of 2) [order_100_200, order_100_200] [40, 70]
       [signature_of 1, signature_of 1] funded_state
     = Inl InsufficientOrderRemaining \<and>
   transact example_deps (env_of 2)
       (CallFillOrdersBatch [order_100_200, order_100_200] [40, 70]
          [signature_of 1, signature_of 1]) funded_state
     = funded_state"
proof -
  let ?D = example_deps and ?E = "env_of 2" and ?o = order_100_200 and ?g = "signature_of 1"
  have 1: "fillOrdersBatch ?D ?E [?o] [40, 70] [?g] funded_state = Inl ArrayLengthMismatch"
    using batch_fill_contract [where D = ?D and E = ?E and orders = "[?o]"
        and amounts = "[40, 70]" and sigs = "[?g]" and s = funded_state]
    by simp
  have 2: "fillOrdersBatch ?D ?E (replicate 6 ?o) (replicate 6 1) (replicate 6 ?g)
      funded_state = Inl TooManyOrders"
    using batch_fill_contract [where D = ?D and E = ?E and orders = "replicate 6 ?o"
        and amounts = "replicate 6 1" and sigs = "replicate 6 ?g" and s = funded_state]
    by (simp add: MAX_BATCH_SIZE_def)
  have one: "fill_each ?D ?E [(?o, 40, ?g)] funded_state = Inr state_after_fill_40"
    by (simp add: fill_40)
  have 3: "fillOrdersBatch ?D ?E [?o] [40] [?g] funded_state = Inr state_after_fill_40"
    using batch_fill_contract [where D = ?D and E = ?E and orders = "[?o]"
        and amounts = "[40]" and sigs = "[?g]" and s = funded_state] one
    by (simp add: MAX_BATCH_SIZE_def)
  note t = batch_fill_contract [where D = ?D and E = ?E and orders = "[?o, ?o]"
        and amounts = "[40, 70]" and sigs = "[?g, ?g]" and s = funded_state
        and xs = "[(?o, 40, ?g)]" and ?s1.0 = state_after_fill_40 and order = ?o and a = 70
        and sig = ?g and e = InsufficientOrderRemaining and ys = "[]"]
  from t one overfill_70
  have 4: "fillOrdersBatch ?D ?E [?o, ?o] [40, 70] [?g, ?g] funded_state
      = Inl InsufficientOrderRemaining"
    by (simp add: MAX_BATCH_SIZE_def)
  with t
  have 5: "transact ?D ?E (CallFillOrdersBatch [?o, ?o] [40, 70] [?g, ?g]) funded_state
      = funded_state"
    by simp
  show ?thesis by (intro conjI) (rule 1 2 3 4 5)+
qed

subsection \<open>C8: the lifecycle of a cancellation\<close>

text \<open>
  Claim C8. \<open>cancelOrder\<close> called by anyone but \<open>order.maker\<close> is rejected with
  \<open>OnlyMakerCanCancel\<close> and changes nothing. Called by the maker it returns, marks the
  order's digest cancelled, and changes no other flag, no ledger entry and no fill
  counter. A digest that is cancelled stays cancelled under every sequence of
  transactions. Cancelling an order whose digest is already cancelled returns and
  leaves the ledger, the fill counters and the cancellation flags as they were. Once
  the digest of an order is cancelled, no later \<open>fillOrder\<close> of that order returns,
  whatever happened in between: it is rejected with \<open>OrderAlreadyCancelled\<close> whenever
  the order has not expired and the caller is an admitted taker (the two checks that
  come first).
\<close>

theorem cancellation_lifecycle:
  "(sender E \<noteq> maker order
      \<longrightarrow> cancelOrder D E order s = Inl OnlyMakerCanCancel \<and>
          transact D E (CallCancelOrder order) s = s) \<and>
   (sender E = maker order
      \<longrightarrow> succeeded (cancelOrder D E order s) \<and>
          cancelledOrders (transact D E (CallCancelOrder order) s) (internal_orderHash D order) \<and>
          (\<forall>h. h \<noteq> internal_orderHash D order
             \<longrightarrow> cancelledOrders (transact D E (CallCancelOrder order) s) h
                   = cancelledOrders s h) \<and>
          balances (transact D E (CallCancelOrder order) s) = balances s \<and>
          filledAmountSell (transact D E (CallCancelOrder order) s) = filledAmountSell s) \<and>
   (cancelledOrders s h \<longrightarrow> cancelledOrders (run D txs s) h) \<and>
   (sender E = maker order \<and> cancelledOrders s (internal_orderHash D order)
      \<longrightarrow> succeeded (cancelOrder D E order s) \<and>
          cancelledOrders (transact D E (CallCancelOrder order) s) = cancelledOrders s \<and>
          balances (transact D E (CallCancelOrder order) s) = balances s \<and>
          filledAmountSell (transact D E (CallCancelOrder order) s) = filledAmountSell s) \<and>
   (cancelledOrders s (internal_orderHash D order)
      \<longrightarrow> \<not> succeeded (fillOrder D E' order a sig (run D txs s)) \<and>
          (\<not> expiration order < timestamp E' \<and> (taker order = 0 \<or> taker order = sender E')
             \<longrightarrow> fillOrder D E' order a sig (run D txs s) = Inl OrderAlreadyCancelled))"
proof (intro conjI impI allI)
  show "cancelOrder D E order s = Inl OnlyMakerCanCancel" if "sender E \<noteq> maker order"
    using that by (simp add: cancelOrder_def)
  show "transact D E (CallCancelOrder order) s = s" if "sender E \<noteq> maker order"
    using that by (simp add: transact_def cancelOrder_def)
next
  assume m: "sender E = maker order"
  show "succeeded (cancelOrder D E order s)"
    using m by (simp add: cancelOrder_def Let_def)
  show "cancelledOrders (transact D E (CallCancelOrder order) s) (internal_orderHash D order)"
    using m by (simp add: transact_def cancelOrder_def Let_def)
  show "cancelledOrders (transact D E (CallCancelOrder order) s) h = cancelledOrders s h"
    if "h \<noteq> internal_orderHash D order" for h
    using m that by (simp add: transact_def cancelOrder_def Let_def)
  show "balances (transact D E (CallCancelOrder order) s) = balances s"
    using m by (simp add: transact_def cancelOrder_def Let_def)
  show "filledAmountSell (transact D E (CallCancelOrder order) s) = filledAmountSell s"
    using m by (simp add: transact_def cancelOrder_def Let_def)
next
  show "cancelledOrders (run D txs s) h" if "cancelledOrders s h"
    using that by (rule run_cancelled)
next
  assume mc: "sender E = maker order \<and> cancelledOrders s (internal_orderHash D order)"
  then have m: "sender E = maker order" and c: "cancelledOrders s (internal_orderHash D order)"
    by simp_all
  show "succeeded (cancelOrder D E order s)"
    using m by (simp add: cancelOrder_def Let_def)
  show "cancelledOrders (transact D E (CallCancelOrder order) s) = cancelledOrders s"
    using m c by (auto simp: transact_def cancelOrder_def Let_def fun_eq_iff)
  show "balances (transact D E (CallCancelOrder order) s) = balances s"
    using m by (simp add: transact_def cancelOrder_def Let_def)
  show "filledAmountSell (transact D E (CallCancelOrder order) s) = filledAmountSell s"
    using m by (simp add: transact_def cancelOrder_def Let_def)
next
  assume "cancelledOrders s (internal_orderHash D order)"
  then have c: "cancelledOrders (run D txs s) (internal_orderHash D order)"
    by (rule run_cancelled)
  show "\<not> succeeded (fillOrder D E' order a sig (run D txs s))"
  proof
    assume "succeeded (fillOrder D E' order a sig (run D txs s))"
    then obtain s1 where "internal_fillOrder D E' order a sig (run D txs s) = Inr s1"
      by (auto simp: succeeded_iff fillOrder_def)
    from internal_fillOrder_Inr(3) [OF this] c show False by simp
  qed
  show "fillOrder D E' order a sig (run D txs s) = Inl OrderAlreadyCancelled"
    if "\<not> expiration order < timestamp E' \<and> (taker order = 0 \<or> taker order = sender E')"
    using that c
      fill_early_rejections [of D E' order a sig "run D txs s", THEN conjunct2, THEN conjunct2,
        THEN conjunct1]
    by (simp add: fillOrder_def)
qed

theorem cancellation_lifecycle_witness:
  "cancelOrder example_deps (env_of 2) order_100_200 funded_state = Inl OnlyMakerCanCancel \<and>
   succeeded (cancelOrder example_deps (env_of 1) order_100_200 funded_state) \<and>
   cancelledOrders
     (transact example_deps (env_of 1) (CallCancelOrder order_100_200) funded_state)
     (internal_orderHash example_deps order_100_200) \<and>
   cancelledOrders
     (run example_deps [(env_of 1, CallDeposit 10 5)]
        (transact example_deps (env_of 1) (CallCancelOrder order_100_200) funded_state))
     (internal_orderHash example_deps order_100_200) \<and>
   cancelledOrders
     (transact example_deps (env_of 1) (CallCancelOrder order_100_200)
        (transact example_deps (env_of 1) (CallCancelOrder order_100_200) funded_state))
     = cancelledOrders
         (transact example_deps (env_of 1) (CallCancelOrder order_100_200) funded_state) \<and>
   fillOrder example_deps (env_of 2) order_100_200 40 (signature_of 1)
     (run example_deps [(env_of 1, CallDeposit 10 5)]
        (transact example_deps (env_of 1) (CallCancelOrder order_100_200) funded_state))
     = Inl OrderAlreadyCancelled"
proof -
  let ?D = example_deps and ?o = order_100_200
  let ?s1 = "transact ?D (env_of 1) (CallCancelOrder ?o) funded_state"
  let ?txs = "[(env_of 1, CallDeposit 10 5)]"
  note t0 = cancellation_lifecycle [where D = ?D and E = "env_of 2" and order = ?o
      and s = funded_state]
  note t1 = cancellation_lifecycle [where D = ?D and E = "env_of 1" and order = ?o
      and s = funded_state]
  note t2 = cancellation_lifecycle [where D = ?D and E = "env_of 1" and order = ?o
      and s = ?s1 and h = "internal_orderHash ?D ?o" and txs = ?txs and E' = "env_of 2"
      and a = 40 and sig = "signature_of 1"]
  from t0 have 1: "cancelOrder ?D (env_of 2) ?o funded_state = Inl OnlyMakerCanCancel"
    by (simp add: env_of_fields order_100_200_fields)
  from t1 have 2: "succeeded (cancelOrder ?D (env_of 1) ?o funded_state)"
    and 3: "cancelledOrders ?s1 (internal_orderHash ?D ?o)"
    by (simp_all add: env_of_fields order_100_200_fields)
  from t2 3 have 4: "cancelledOrders (run ?D ?txs ?s1) (internal_orderHash ?D ?o)"
    by blast
  from t2 3
  have 5: "cancelledOrders (transact ?D (env_of 1) (CallCancelOrder ?o) ?s1)
      = cancelledOrders ?s1"
    by (simp add: env_of_fields order_100_200_fields)
  from t2 3
  have 6: "fillOrder ?D (env_of 2) ?o 40 (signature_of 1) (run ?D ?txs ?s1)
      = Inl OrderAlreadyCancelled"
    by (simp add: env_of_fields order_100_200_fields)
  show ?thesis by (intro conjI) (rule 1 2 3 4 5 6)+
qed

subsection \<open>C10: the unguarded division\<close>

text \<open>
  Claim C10. \<open>fillOrder\<close> divides by \<open>order.amountSell\<close> without checking that it is
  not zero. The call aborts with the division-by-zero panic, and so with none of the
  declared errors, exactly when the expiry, taker, cancellation and signature checks
  pass, \<open>order.amountSell\<close> is zero, \<open>amountToFill\<close> is zero and the fill counter of
  the order is zero (the remaining capacity 0 is then not less than the fill). For an
  order whose \<open>amountSell\<close> is positive the panic cannot occur.
\<close>

theorem unguarded_division:
  "(fillOrder D E order a sig s = Inl (Panic DivisionByZero) \<longleftrightarrow>
      passes_checks D E order sig s \<and> amountSell order = 0 \<and> a = 0 \<and>
      filledAmountSell s (internal_orderHash D order) = 0) \<and>
   (amountSell order \<noteq> 0 \<longrightarrow> fillOrder D E order a sig s \<noteq> Inl (Panic DivisionByZero))"
proof (cases "passes_checks D E order sig s")
  case True
  show ?thesis
    unfolding fillOrder_def fill_rejections_passed(4) [OF True]
    using True by (auto simp: unat_eq_0)
next
  case False
  show ?thesis
    unfolding fillOrder_def using fill_rejections_failed(4) [OF False] False by simp
qed


theorem unguarded_division_witness:
  "passes_checks example_deps (env_of 2) order_zero_sell (signature_of 1) funded_state \<and>
   amountSell order_zero_sell = 0 \<and>
   filledAmountSell funded_state (internal_orderHash example_deps order_zero_sell) = 0 \<and>
   fillOrder example_deps (env_of 2) order_zero_sell 0 (signature_of 1) funded_state
     = Inl (Panic DivisionByZero) \<and>
   amountSell order_100_200 \<noteq> 0 \<and>
   fillOrder example_deps (env_of 2) order_100_200 40 (signature_of 1) funded_state
     \<noteq> Inl (Panic DivisionByZero)"
  using unguarded_division
    [of example_deps "env_of 2" order_zero_sell 0 "signature_of 1" funded_state]
    unguarded_division
    [of example_deps "env_of 2" order_100_200 40 "signature_of 1" funded_state]
  by (simp add: passes_zero order_zero_sell_fields order_100_200_fields funded_state_fields)


end
